theory Spec2Isabelle
  imports Complex_Main "HOL-Library.Word" "HOL-Library.Signed_Division" "HOL-Library.Multiset"
begin

section \<open>LockfreeMandelbrot: a shallow embedding of main.cpp\<close>

text \<open>
  The program computes escape-time counts for a pixel grid with several worker threads.
  The embedding follows main.cpp declaration by declaration.

  Conventions.
  \<^item> A C++ \<open>int\<close> that the program keeps small (coordinates, indices, sizes) is an
    \<open>int\<close>; signed overflow is undefined behaviour in C++, so the theorems about the
    worker loop assume sizes below \<open>2^31\<close> instead of inventing a wrap-around.
    Conversions between integer types that the source performs (\<open>int\<close> to
    \<open>uint64_t\<close> and back, \<open>int\<close> to \<open>uint32_t\<close>) are written out with
    \<open>u64\<close>, \<open>u32\<close> and \<open>s32\<close>.
  \<^item> The loop counter of \<open>render\<close> is a \<open>32 word\<close>, because its loop test is
    \<open>i != cMaxIterations\<close> and only a machine integer makes that loop total.
  \<^item> \<open>double\<close> is a type variable \<open>'d\<close> together with a record of the operations
    the source applies to doubles. Every theorem holds for every choice of these
    operations, IEEE 754 arithmetic included.
  \<^item> An access outside an array or vector is undefined behaviour in C++; the model
    returns \<open>None\<close> (sequential code) or moves the thread to \<open>Crashed\<close>.
\<close>

subsection \<open>Integer conversions\<close>

definition u64 :: "int \<Rightarrow> int" where
  "u64 v = v mod 2 ^ 64"

definition u32 :: "int \<Rightarrow> int" where
  "u32 v = v mod 2 ^ 32"

definition s32 :: "int \<Rightarrow> int" where
  "s32 v = (v + 2 ^ 31) mod 2 ^ 32 - 2 ^ 31"

subsection \<open>Constants of the program\<close>

type_synonym ResultType = "16 word"

definition cBatchSize :: int where
  "cBatchSize = 20000"

definition cWidthPixels :: int where
  "cWidthPixels = 170"

definition cHeightPixels :: int where
  "cHeightPixels = 118"

definition cBufferSize :: int where
  "cBufferSize = 99999"

definition cMaxIterations :: "32 word" where
  "cMaxIterations = 1000"

subsection \<open>Double-precision arithmetic, as a parameter\<close>

record 'd double_ops =
  fromi :: "int \<Rightarrow> 'd"
  lit :: "rat \<Rightarrow> 'd"
  fadd :: "'d \<Rightarrow> 'd \<Rightarrow> 'd"
  fsub :: "'d \<Rightarrow> 'd \<Rightarrow> 'd"
  fmul :: "'d \<Rightarrow> 'd \<Rightarrow> 'd"
  fdiv :: "'d \<Rightarrow> 'd \<Rightarrow> 'd"
  fgt :: "'d \<Rightarrow> 'd \<Rightarrow> bool"

text \<open>Exact rational arithmetic, used to run the definitions on concrete inputs.\<close>

definition exact_ops :: "rat double_ops" where
  "exact_ops = \<lparr> fromi = of_int, lit = (\<lambda>q. q), fadd = (+), fsub = (-), fmul = (*),
     fdiv = (/), fgt = (\<lambda>a b. b < a) \<rparr>"

subsection \<open>The escape-time kernel: \<open>LockfreeMandelbrot::render\<close>\<close>

text \<open>
  \<^verbatim>\<open>for (; i != cMaxIterations; ++i) { xtemp = x*x - y*y + scaledX; y = 2*x*y + scaledY;
     x = xtemp; if (x*x + y*y > 2*2) break; } return i;\<close>
\<close>

function render_loop ::
  "'d double_ops \<Rightarrow> 'd \<Rightarrow> 'd \<Rightarrow> 'd \<Rightarrow> 'd \<Rightarrow> 32 word \<Rightarrow> 32 word" where
  "render_loop fp scaledX scaledY x y i =
     (if i = cMaxIterations then i
      else
        let xtemp = fadd fp (fsub fp (fmul fp x x) (fmul fp y y)) scaledX;
            y' = fadd fp (fmul fp (fmul fp (fromi fp 2) x) y) scaledY;
            x' = xtemp
        in if fgt fp (fadd fp (fmul fp x' x') (fmul fp y' y')) (fromi fp (2 * 2)) then i
           else render_loop fp scaledX scaledY x' y' (i + 1))"
  by pat_completeness auto
termination
proof (relation "measure (\<lambda>(fp, scaledX, scaledY, x, y, i). unat (cMaxIterations - i))")
  show "wf (measure (\<lambda>(fp :: 'd double_ops, scaledX :: 'd, scaledY :: 'd, x :: 'd, y :: 'd, i).
    unat (cMaxIterations - i)))"
    by simp
next
  fix fp :: "'d double_ops" and scaledX scaledY x y :: 'd and i :: "32 word"
    and xtemp y' x' :: 'd
  assume "i \<noteq> cMaxIterations"
  then have nz: "cMaxIterations - i \<noteq> 0"
    by simp
  have eq: "cMaxIterations - (i + 1) = (cMaxIterations - i) - 1"
    by simp
  have "unat (cMaxIterations - (i + 1)) < unat (cMaxIterations - i)"
    unfolding eq by (rule measure_unat [OF nz])
  then show "((fp, scaledX, scaledY, x', y', i + 1), (fp, scaledX, scaledY, x, y, i))
    \<in> measure (\<lambda>(fp, scaledX, scaledY, x, y, i). unat (cMaxIterations - i))"
    by simp
qed

definition render :: "'d double_ops \<Rightarrow> 'd \<Rightarrow> 'd \<Rightarrow> ResultType" where
  "render fp scaledX scaledY =
     ucast (render_loop fp scaledX scaledY (fromi fp 0) (fromi fp 0) 0)"

text \<open>
  The same loop with a bound on the number of times its body may run: \<open>None\<close> when
  the bound is used up before the loop ends.
\<close>

fun render_fuel ::
  "nat \<Rightarrow> 'd double_ops \<Rightarrow> 'd \<Rightarrow> 'd \<Rightarrow> 'd \<Rightarrow> 'd \<Rightarrow> 32 word \<Rightarrow> 32 word option" where
  "render_fuel 0 fp scaledX scaledY x y i = (if i = cMaxIterations then Some i else None)"
| "render_fuel (Suc n) fp scaledX scaledY x y i =
     (if i = cMaxIterations then Some i
      else
        let xtemp = fadd fp (fsub fp (fmul fp x x) (fmul fp y y)) scaledX;
            y' = fadd fp (fmul fp (fmul fp (fromi fp 2) x) y) scaledY;
            x' = xtemp
        in if fgt fp (fadd fp (fmul fp x' x') (fmul fp y' y')) (fromi fp (2 * 2)) then Some i
           else render_fuel n fp scaledX scaledY x' y' (i + 1))"

text \<open>
  The reference recurrence, in the words of the specification: \<open>z \<leftarrow> z\<^sup>2 + c\<close> from
  \<open>z = 0\<close>, through the real and imaginary expansion; the escape test
  \<open>|z|\<^sup>2 > 4.0\<close>; the count is the number of iterations completed before the first
  iterate that escapes, and 1000 when none of the first 1000 iterates escapes.
\<close>

definition mandel_step :: "'d double_ops \<Rightarrow> 'd \<Rightarrow> 'd \<Rightarrow> 'd \<times> 'd \<Rightarrow> 'd \<times> 'd" where
  "mandel_step fp cx cy z =
     (fadd fp (fsub fp (fmul fp (fst z) (fst z)) (fmul fp (snd z) (snd z))) cx,
      fadd fp (fmul fp (fmul fp (fromi fp 2) (fst z)) (snd z)) cy)"

definition escaped :: "'d double_ops \<Rightarrow> 'd \<times> 'd \<Rightarrow> bool" where
  "escaped fp z =
     fgt fp (fadd fp (fmul fp (fst z) (fst z)) (fmul fp (snd z) (snd z))) (fromi fp 4)"

primrec orbit :: "'d double_ops \<Rightarrow> 'd \<Rightarrow> 'd \<Rightarrow> nat \<Rightarrow> 'd \<times> 'd" where
  "orbit fp cx cy 0 = (fromi fp 0, fromi fp 0)"
| "orbit fp cx cy (Suc n) = mandel_step fp cx cy (orbit fp cx cy n)"

definition escape_time :: "'d double_ops \<Rightarrow> 'd \<Rightarrow> 'd \<Rightarrow> nat" where
  "escape_time fp cx cy =
     (case find (\<lambda>n. escaped fp (orbit fp cx cy (Suc n))) [0..<1000] of
        Some n \<Rightarrow> n
      | None \<Rightarrow> 1000)"

subsection \<open>The index and coordinate mapper\<close>

text \<open>
  \<^verbatim>\<open>double scaleX(uint32_t x) { return static_cast<double>(x) / mWidthPixels * 2.47 - 2; }\<close>
  and \<^verbatim>\<open>scaleY\<close> alike, with \<open>2.24\<close> and \<open>1.12\<close>. The caller passes an \<open>int\<close>, which
  becomes the \<open>uint32_t\<close> parameter.
\<close>

definition scaleX :: "'d double_ops \<Rightarrow> int \<Rightarrow> int \<Rightarrow> 'd" where
  "scaleX fp W x =
     fsub fp (fmul fp (fdiv fp (fromi fp (u32 x)) (fromi fp W)) (lit fp (247 / 100))) (fromi fp 2)"

definition scaleY :: "'d double_ops \<Rightarrow> int \<Rightarrow> int \<Rightarrow> 'd" where
  "scaleY fp H y =
     fsub fp (fmul fp (fdiv fp (fromi fp (u32 y)) (fromi fp H)) (lit fp (224 / 100)))
       (lit fp (112 / 100))"

text \<open>
  \<^verbatim>\<open>void positionFromIndex(const uint64_t in, int &x, int &y)
     { y = in / mWidthPixels; x = in - (y * mWidthPixels); }\<close>
  The argument is the \<open>int\<close> \<open>currentIndex\<close>, converted to \<open>uint64_t\<close>; the division
  and the subtraction are unsigned 64-bit operations, their results are stored in
  \<open>int\<close>s. The result is the pair \<open>(x, y)\<close>.
\<close>

definition positionFromIndex :: "int \<Rightarrow> int \<Rightarrow> int \<times> int" where
  "positionFromIndex W idx =
     (let inn = u64 idx;
          y = s32 (inn div u64 W);
          x = s32 (u64 (inn - u64 (y * W)))
      in (x, y))"

subsection \<open>The thread-local buffer: class \<open>Stack\<close>\<close>

text \<open>
  The fields \<open>x\<close>, \<open>y\<close> and \<open>res\<close> of \<open>Item\<close> are named \<open>item_x\<close>, \<open>item_y\<close> and
  \<open>item_res\<close>. The array \<open>std::array<Item, cBufferSize> arr\<close> is a function from
  positions to items, with the bound checked where the source indexes it.
\<close>

record Item =
  item_x :: int
  item_y :: int
  item_res :: ResultType

record Stack =
  arr :: "nat \<Rightarrow> Item"
  lastPos :: int

text \<open>\<^verbatim>\<open>void push(Item item) { arr[lastPos] = item; ++lastPos; }\<close>\<close>

definition push :: "Item \<Rightarrow> Stack \<Rightarrow> Stack option" where
  "push item st =
     (if 0 \<le> lastPos st \<and> lastPos st < cBufferSize
      then Some (st\<lparr>arr := (arr st)(nat (lastPos st) := item), lastPos := lastPos st + 1\<rparr>)
      else None)"

text \<open>
  The shared grid \<open>std::vector<std::vector<ResultType>>\<close> is a list of columns.
  \<open>write_cell m e\<close> is the assignment \<^verbatim>\<open>resultMap[e.x][e.y] = e.res\<close>.
\<close>

definition write_cell :: "ResultType list list \<Rightarrow> Item \<Rightarrow> ResultType list list option" where
  "write_cell m e =
     (if 0 \<le> item_x e \<and> nat (item_x e) < length m \<and>
         0 \<le> item_y e \<and> nat (item_y e) < length (m ! nat (item_x e))
      then Some (m[nat (item_x e) := (m ! nat (item_x e))[nat (item_y e) := item_res e]])
      else None)"

text \<open>
  \<^verbatim>\<open>void dumpToMap(std::vector<std::vector<ResultType>> &resultMap) {
     for (int i = 0; i != lastPos; ++i) { const auto &e = arr[i]; resultMap[e.x][e.y] = e.res; }
     lastPos = 0; }\<close>
\<close>

partial_function (option) dump_loop ::
  "Stack \<Rightarrow> int \<Rightarrow> ResultType list list \<Rightarrow> ResultType list list option" where
  "dump_loop st i m =
     (if i = lastPos st then Some m
      else if 0 \<le> i \<and> i < cBufferSize
        then (case write_cell m (arr st (nat i)) of
                None \<Rightarrow> None
              | Some m' \<Rightarrow> dump_loop st (i + 1) m')
        else None)"

definition dumpToMap ::
  "Stack \<Rightarrow> ResultType list list \<Rightarrow> (Stack \<times> ResultType list list) option" where
  "dumpToMap st m =
     (case dump_loop st 0 m of
        None \<Rightarrow> None
      | Some m' \<Rightarrow> Some (st\<lparr>lastPos := 0\<rparr>, m'))"

text \<open>The entries a buffer holds: the first \<open>lastPos\<close> items of its array.\<close>

definition entries :: "Stack \<Rightarrow> Item list" where
  "entries st = map (arr st) [0..<nat (lastPos st)]"

subsection \<open>The result grid: struct \<open>MandelbrotBitmap\<close>\<close>

text \<open>
  The field \<open>map\<close> is named \<open>map_grid\<close>. The constructor builds \<open>width\<close> columns of
  \<open>height\<close> zeros; it does not return for \<open>width < 1\<close> or \<open>height < 0\<close>.
\<close>

record MandelbrotBitmap =
  map_grid :: "ResultType list list"
  width :: int
  height :: int

definition new_MandelbrotBitmap :: "int \<Rightarrow> int \<Rightarrow> MandelbrotBitmap option" where
  "new_MandelbrotBitmap W H =
     (if 1 \<le> W \<and> 0 \<le> H
      then Some \<lparr> map_grid = replicate (nat W) (replicate (nat H) 0), width = W, height = H \<rparr>
      else None)"

subsection \<open>The renderer: \<open>drawFromResults\<close>\<close>

text \<open>
  \<open>draw_cell r\<close> is the character the \<open>if\<close> chain assigns to \<open>c\<close> for the cell value
  \<open>r\<close>, and \<open>None\<close> when no branch assigns it (the source then prints an
  uninitialised \<open>char\<close>). The comparisons are made on \<open>r\<close> promoted to \<open>int\<close>.
  \<open>threshold_branches r\<close> lists the four conditions of the chain, in its order.
\<close>

definition draw_cell :: "ResultType \<Rightarrow> char option" where
  "draw_cell r =
     (if uint r \<le> 10 then Some (CHR '' '')
      else if uint r > 10 \<and> uint r \<le> 100 then Some (CHR ''.'')
      else if uint r > 100 \<and> uint r \<le> 200 then Some (CHR ''x'')
      else if uint r > 200 \<and> uint r \<le> 1000 then Some (CHR ''O'')
      else None)"

definition threshold_branches :: "ResultType \<Rightarrow> bool list" where
  "threshold_branches r =
     [uint r \<le> 10,
      uint r > 10 \<and> uint r \<le> 100,
      uint r > 100 \<and> uint r \<le> 200,
      uint r > 200 \<and> uint r \<le> 1000]"

text \<open>
  The whole output, row by row, for a bitmap whose grid covers \<open>width\<close> by
  \<open>height\<close>; \<open>None\<close> when a read would fall outside the grid.
\<close>

definition drawFromResults :: "MandelbrotBitmap \<Rightarrow> char option list option" where
  "drawFromResults bm =
     (if 0 \<le> width bm \<and> 0 \<le> height bm \<and>
         list_all (\<lambda>x. x < length (map_grid bm) \<and>
            list_all (\<lambda>y. y < length (map_grid bm ! x)) [0..<nat (height bm)])
           [0..<nat (width bm)]
      then Some (concat (map (\<lambda>y.
             map (\<lambda>x. draw_cell (map_grid bm ! x ! y)) [0..<nat (width bm)]
               @ [Some (CHR 0x0A)])
           [0..<nat (height bm)]))
      else None)"

subsection \<open>The orchestrator object and its worker threads\<close>

text \<open>
  A spawned \<open>std::thread\<close> is a record of its handle (\<open>joinable\<close>) and of the
  activation of \<open>loop()\<close> it runs: the place the activation has reached (\<open>loc\<close>) and
  the local variables \<open>threadStack\<close>, \<open>currentIndex\<close>, \<open>dummy\<close> and the \<open>i\<close> of
  \<open>dumpToMap\<close> (\<open>dump_i\<close>). The local \<open>currentBatch\<close> is read only in the
  statement that follows its assignment and is bound by a \<open>let\<close> there.

  The places are the points between two accesses to shared memory:
  \<^item> \<open>AtLoopTop\<close>: before \<^verbatim>\<open>++currentIndex\<close>;
  \<^item> \<open>AtSpin\<close>: before a \<^verbatim>\<open>compare_exchange_weak\<close> on \<open>mIsSavingResults\<close>;
  \<^item> \<open>AtDump\<close>: in \<open>dumpToMap\<close>, before the test \<^verbatim>\<open>i != lastPos\<close>;
  \<^item> \<open>AtRelease\<close>: before \<^verbatim>\<open>mIsSavingResults.store(false)\<close>;
  \<^item> \<open>AtClaim\<close>: before \<^verbatim>\<open>mMandelbrotIterator.fetch_add(1)\<close>;
  \<^item> \<open>Returned\<close>: \<open>loop()\<close> has returned;
  \<^item> \<open>Crashed\<close>: the activation has run into undefined behaviour.
\<close>

datatype location = AtLoopTop | AtSpin | AtDump | AtRelease | AtClaim | Returned | Crashed

record thread =
  joinable :: bool
  loc :: location
  threadStack :: Stack
  currentIndex :: int
  dummy :: bool
  dump_i :: int

record LockfreeMandelbrot =
  mThreads :: "thread list"
  mMandelbrotIterator :: nat
  mIsSavingResults :: bool
  mResults :: MandelbrotBitmap
  mIsStarted :: bool
  mWidthPixels :: int
  mHeightPixels :: int

text \<open>
  The constructor initialises \<open>mWidthPixels\<close>, \<open>mHeightPixels\<close>, \<open>mResults\<close> and
  \<open>mIsStarted\<close>. It gives no value to the atomics \<open>mIsSavingResults\<close> and
  \<open>mMandelbrotIterator\<close>; what they hold afterwards is a parameter here (\<open>False\<close>
  and \<open>0\<close> from C++20 on).
\<close>

definition new_LockfreeMandelbrot ::
  "int \<Rightarrow> int \<Rightarrow> bool \<Rightarrow> nat \<Rightarrow> LockfreeMandelbrot option" where
  "new_LockfreeMandelbrot W H saving0 iterator0 =
     (case new_MandelbrotBitmap W H of
        None \<Rightarrow> None
      | Some bm \<Rightarrow>
          Some \<lparr> mThreads = [], mMandelbrotIterator = iterator0, mIsSavingResults = saving0,
                 mResults = bm, mIsStarted = False, mWidthPixels = W, mHeightPixels = H \<rparr>)"

text \<open>
  A thread as \<^verbatim>\<open>std::thread([this]() { loop(); })\<close> creates it: at the top of \<open>loop()\<close>,
  with an empty \<open>Stack\<close> and \<open>currentIndex = -1\<close>. The array of the stack, \<open>dummy\<close>
  and \<open>dump_i\<close> hold no value yet; each is written before it is read.
\<close>

definition new_thread :: thread where
  "new_thread =
     \<lparr> joinable = True, loc = AtLoopTop,
       threadStack = \<lparr> arr = (\<lambda>_. \<lparr> item_x = 0, item_y = 0, item_res = 0 \<rparr>), lastPos = 0 \<rparr>,
       currentIndex = - 1, dummy = False, dump_i = 0 \<rparr>"

text \<open>
  \<^verbatim>\<open>bool startThreads(int numThreads) {
     mMandelbrotIterator.store(0);
     bool expected{false};
     if (mIsStarted.compare_exchange_strong(expected, true)) {
       mThreads.reserve(numThreads);
       for (int i = 0; i != numThreads; ++i) mThreads.emplace_back(std::thread(...));
       return true;
     } else { return false; } }\<close>
  A negative \<open>numThreads\<close> makes \<open>reserve\<close> throw: no result.
\<close>

definition startThreads :: "int \<Rightarrow> LockfreeMandelbrot \<Rightarrow> (bool \<times> LockfreeMandelbrot) option" where
  "startThreads numThreads s =
     (let s1 = s\<lparr>mMandelbrotIterator := 0\<rparr> in
      if mIsStarted s1 = False
      then (if 0 \<le> numThreads
            then Some (True, s1\<lparr>mIsStarted := True,
                                mThreads := mThreads s1 @ replicate (nat numThreads) new_thread\<rparr>)
            else None)
      else Some (False, s1))"

text \<open>
  \<^verbatim>\<open>void waitToFinish() {
     if (mIsStarted == false) return;
     mIsStarted.store(false);
     for (auto &t: mThreads) if (t.joinable()) t.join(); }\<close>
  \<open>join\<close> returns once the thread's \<open>loop()\<close> has returned. The result is the list
  of the threads joined (their positions in \<open>mThreads\<close>) and the object afterwards;
  \<open>None\<close> when a thread to join has not returned, so that the call is still blocked.
\<close>

definition waitToFinish :: "LockfreeMandelbrot \<Rightarrow> (nat list \<times> LockfreeMandelbrot) option" where
  "waitToFinish s =
     (if mIsStarted s = False then Some ([], s)
      else
        let s1 = s\<lparr>mIsStarted := False\<rparr>;
            joined = filter (\<lambda>k. joinable (mThreads s1 ! k)) [0..<length (mThreads s1)]
        in if list_all (\<lambda>k. loc (mThreads s1 ! k) = Returned) joined
           then Some (joined, s1\<lparr>mThreads := map (\<lambda>t. t\<lparr>joinable := False\<rparr>) (mThreads s1)\<rparr>)
           else None)"

definition getMap :: "LockfreeMandelbrot \<Rightarrow> MandelbrotBitmap" where
  "getMap s = mResults s"

subsection \<open>The worker loop: \<open>LockfreeMandelbrot::loop\<close>\<close>

text \<open>
  Lines 147 to 154 of main.cpp: the coordinates of \<open>currentIndex\<close>, the kernel, the
  push into the thread's stack.
\<close>

definition compute_push :: "'d double_ops \<Rightarrow> int \<Rightarrow> int \<Rightarrow> thread \<Rightarrow> thread" where
  "compute_push fp W H t =
     (let xy = positionFromIndex W (currentIndex t);
          scaledX = scaleX fp W (fst xy);
          scaledY = scaleY fp H (snd xy);
          result = render fp scaledX scaledY
      in case push \<lparr> item_x = fst xy, item_y = snd xy, item_res = result \<rparr> (threadStack t) of
           None \<Rightarrow> t\<lparr>loc := Crashed\<rparr>
         | Some st \<Rightarrow> t\<lparr>threadStack := st, loc := AtLoopTop\<rparr>)"

definition process ::
  "'d double_ops \<Rightarrow> LockfreeMandelbrot \<Rightarrow> thread \<Rightarrow> int option \<times> LockfreeMandelbrot \<times> thread" where
  "process fp s t =
     (let t' = compute_push fp (mWidthPixels s) (mHeightPixels s) t
      in (if loc t' = Crashed then None else Some (currentIndex t), s, t'))"

text \<open>
  One step of a thread: from a place to the next, with one access to shared memory at
  most. \<open>B\<close> is the batch size (\<open>cBatchSize\<close> in the program). \<open>spurious\<close> says
  whether a \<open>compare_exchange_weak\<close> at this step fails although the flag holds the
  expected value, as the weak form may. The first component of the result is the index
  the step has processed (kernel computed, triple pushed), if any.

  \<^verbatim>\<open>while (true) {
     ++currentIndex;
     if (currentIndex % cBatchSize == 0 || currentIndex >= totalArea) {
       bool dummy{false};
       while (!mIsSavingResults.compare_exchange_weak(dummy, true, acquire, relaxed));
       threadStack.dumpToMap(mResults.map);
       mIsSavingResults.store(false, release);
       currentBatch = mMandelbrotIterator.fetch_add(1);
       if (currentBatch >= totalArea / cBatchSize) return;
       currentIndex = currentBatch * cBatchSize;
     }
     ... positionFromIndex, scaleX, scaleY, render, push ...
   }\<close>
  A failed \<open>compare_exchange_weak\<close> stores the value it found in \<open>dummy\<close>, and the
  next attempt expects that value. \<open>%\<close> and \<open>/\<close> truncate (\<open>smod\<close>, \<open>sdiv\<close>).
  \<open>fetch_add\<close> wraps at \<open>2^64\<close>; its result becomes the \<open>int\<close> \<open>currentBatch\<close>.
\<close>

definition loop_step ::
  "int \<Rightarrow> 'd double_ops \<Rightarrow> bool \<Rightarrow> LockfreeMandelbrot \<Rightarrow> thread
     \<Rightarrow> int option \<times> LockfreeMandelbrot \<times> thread" where
  "loop_step B fp spurious s t =
     (let totalArea = mWidthPixels s * mHeightPixels s in
      case loc t of
        AtLoopTop \<Rightarrow>
          (let t1 = t\<lparr>currentIndex := currentIndex t + 1\<rparr> in
           if currentIndex t1 smod B = 0 \<or> currentIndex t1 \<ge> totalArea
           then (None, s, t1\<lparr>dummy := False, loc := AtSpin\<rparr>)
           else process fp s t1)
      | AtSpin \<Rightarrow>
          if mIsSavingResults s = dummy t \<and> \<not> spurious
          then (None, s\<lparr>mIsSavingResults := True\<rparr>, t\<lparr>dump_i := 0, loc := AtDump\<rparr>)
          else (None, s, t\<lparr>dummy := mIsSavingResults s\<rparr>)
      | AtDump \<Rightarrow>
          if dump_i t \<noteq> lastPos (threadStack t)
          then (if 0 \<le> dump_i t \<and> dump_i t < cBufferSize
                then (case write_cell (map_grid (mResults s))
                             (arr (threadStack t) (nat (dump_i t))) of
                        None \<Rightarrow> (None, s, t\<lparr>loc := Crashed\<rparr>)
                      | Some m \<Rightarrow>
                          (None, s\<lparr>mResults := (mResults s)\<lparr>map_grid := m\<rparr>\<rparr>,
                           t\<lparr>dump_i := dump_i t + 1\<rparr>))
                else (None, s, t\<lparr>loc := Crashed\<rparr>))
          else (None, s, t\<lparr>threadStack := (threadStack t)\<lparr>lastPos := 0\<rparr>, loc := AtRelease\<rparr>)
      | AtRelease \<Rightarrow> (None, s\<lparr>mIsSavingResults := False\<rparr>, t\<lparr>loc := AtClaim\<rparr>)
      | AtClaim \<Rightarrow>
          (let currentBatch = s32 (int (mMandelbrotIterator s));
               s1 = s\<lparr>mMandelbrotIterator := (mMandelbrotIterator s + 1) mod 2 ^ 64\<rparr>
           in if currentBatch \<ge> totalArea sdiv B then (None, s1, t\<lparr>loc := Returned\<rparr>)
              else process fp s1 (t\<lparr>currentIndex := currentBatch * B\<rparr>))
      | Returned \<Rightarrow> (None, s, t)
      | Crashed \<Rightarrow> (None, s, t))"

text \<open>
  The threads interleave: an event \<open>(k, spurious)\<close> lets thread \<open>k\<close> take one step.
  A run is a list of events; its result is the list of the pairs (thread, index
  processed), in the order of processing, and the object at the end.

  What the interleaving takes for granted: every access to an atomic is one
  indivisible step and all threads see the accesses in one order (the executions of
  sequentially consistent atomics, which the orders the source asks for,
  \<open>acquire\<close>, \<open>release\<close> and \<open>relaxed\<close>, all allow); the work a thread does on its
  own variables between two shared accesses is part of the step that follows; and
  \<open>startThreads\<close> has created all its threads before the first of them takes a
  step. A property that fails in one of these runs fails in the program; a property
  proved for all of them is proved for these runs.
\<close>

definition step ::
  "int \<Rightarrow> 'd double_ops \<Rightarrow> nat \<times> bool \<Rightarrow> LockfreeMandelbrot
     \<Rightarrow> (nat \<times> int) list \<times> LockfreeMandelbrot" where
  "step B fp e s =
     (if fst e < length (mThreads s)
      then (case loop_step B fp (snd e) s (mThreads s ! fst e) of
              (l, s', t') \<Rightarrow>
                ((case l of None \<Rightarrow> [] | Some idx \<Rightarrow> [(fst e, idx)]),
                 s'\<lparr>mThreads := (mThreads s')[fst e := t']\<rparr>))
      else ([], s))"

fun exec ::
  "int \<Rightarrow> 'd double_ops \<Rightarrow> (nat \<times> bool) list \<Rightarrow> LockfreeMandelbrot
     \<Rightarrow> (nat \<times> int) list \<times> LockfreeMandelbrot" where
  "exec B fp [] s = ([], s)"
| "exec B fp (e # es) s =
     (case step B fp e s of
        (l, s') \<Rightarrow> (case exec B fp es s' of (tr, s'') \<Rightarrow> (l @ tr, s'')))"

text \<open>
  A run, as \<open>main\<close> starts it: construct the object, \<open>startThreads\<close>, let the
  threads run (the schedule \<open>sched\<close>). The result is \<open>None\<close> unless the constructor
  returns and \<open>startThreads\<close> returns \<open>true\<close>.
\<close>

definition run_threads ::
  "int \<Rightarrow> int \<Rightarrow> bool \<Rightarrow> nat \<Rightarrow> int \<Rightarrow> int \<Rightarrow> 'd double_ops \<Rightarrow> (nat \<times> bool) list
     \<Rightarrow> ((nat \<times> int) list \<times> LockfreeMandelbrot) option" where
  "run_threads W H saving0 iterator0 numThreads B fp sched =
     (case new_LockfreeMandelbrot W H saving0 iterator0 of
        None \<Rightarrow> None
      | Some s0 \<Rightarrow>
          (case startThreads numThreads s0 of
             None \<Rightarrow> None
           | Some (started, s1) \<Rightarrow> if started then Some (exec B fp sched s1) else None))"

text \<open>
  A complete run: the run above, then \<open>waitToFinish\<close>. The result is \<open>None\<close> unless
  \<open>waitToFinish\<close> returns after the schedule, that is, unless every thread has
  returned from \<open>loop()\<close> by then.
\<close>

definition complete_run ::
  "int \<Rightarrow> int \<Rightarrow> bool \<Rightarrow> nat \<Rightarrow> int \<Rightarrow> int \<Rightarrow> 'd double_ops \<Rightarrow> (nat \<times> bool) list
     \<Rightarrow> ((nat \<times> int) list \<times> LockfreeMandelbrot) option" where
  "complete_run W H saving0 iterator0 numThreads B fp sched =
     (case run_threads W H saving0 iterator0 numThreads B fp sched of
        None \<Rightarrow> None
      | Some (tr, s2) \<Rightarrow>
          (case waitToFinish s2 of
             None \<Rightarrow> None
           | Some (joined, s3) \<Rightarrow> Some (tr, s3)))"

text \<open>The value the kernel gives to the pixel \<open>(x, y)\<close>, computed sequentially.\<close>

definition pixel :: "'d double_ops \<Rightarrow> int \<Rightarrow> int \<Rightarrow> int \<Rightarrow> int \<Rightarrow> ResultType" where
  "pixel fp W H x y = render fp (scaleX fp W x) (scaleY fp H y)"

text \<open>The characters the four branches of \<open>drawFromResults\<close> assign, in their order.\<close>

definition branch_chars :: "char list" where
  "branch_chars = [CHR '' '', CHR ''.'', CHR ''x'', CHR ''O'']"

subsection \<open>Notions the theorems use\<close>

text \<open>Writing a list of items into the grid, one after the other.\<close>

fun write_all :: "Item list \<Rightarrow> ResultType list list \<Rightarrow> ResultType list list option" where
  "write_all [] m = Some m"
| "write_all (e # es) m =
     (case write_cell m e of None \<Rightarrow> None | Some m' \<Rightarrow> write_all es m')"

text \<open>An item lies inside the grid; two grids have columns of the same lengths.\<close>

definition in_grid :: "ResultType list list \<Rightarrow> Item \<Rightarrow> bool" where
  "in_grid m e \<longleftrightarrow>
     0 \<le> item_x e \<and> nat (item_x e) < length m \<and>
     0 \<le> item_y e \<and> nat (item_y e) < length (m ! nat (item_x e))"

definition same_shape :: "'a list list \<Rightarrow> 'a list list \<Rightarrow> bool" where
  "same_shape m m' \<longleftrightarrow> map length m' = map length m"

text \<open>An item is for the cell \<open>(x, y)\<close>.\<close>

definition at_cell :: "nat \<Rightarrow> nat \<Rightarrow> Item \<Rightarrow> bool" where
  "at_cell x y e \<longleftrightarrow> item_x e = int x \<and> item_y e = int y"

text \<open>A buffer with two entries for the cell \<open>(0, 0)\<close>: first the result 1, then 2.\<close>

definition stack2 :: Stack where
  "stack2 = \<lparr> arr = (\<lambda>_. \<lparr> item_x = 0, item_y = 0, item_res = 2 \<rparr>)
                  (0 := \<lparr> item_x = 0, item_y = 0, item_res = 1 \<rparr>), lastPos = 2 \<rparr>"

text \<open>
  A buffer whose one entry lies outside a grid of one cell: the entry is for the row
  index 1.
\<close>

definition stack_outside :: Stack where
  "stack_outside = \<lparr> arr = (\<lambda>_. \<lparr> item_x = 1, item_y = 0, item_res = 1 \<rparr>), lastPos = 1 \<rparr>"

subsection \<open>Notions for the worker loop\<close>

text \<open>
  The number of batches the loop hands out: \<open>totalArea / cBatchSize\<close>, rounded down;
  and the number of indices these batches cover.
\<close>

definition batches :: "int \<Rightarrow> int \<Rightarrow> int \<Rightarrow> int" where
  "batches W H B = (W * H) div B"

definition covered :: "int \<Rightarrow> int \<Rightarrow> int \<Rightarrow> int" where
  "covered W H B = batches W H B * B"

text \<open>
  The grid cell of the linear index \<open>j\<close>, the value the kernel gives to that index,
  and the triple the loop pushes for it: \<open>x = j mod W\<close>, \<open>y = j div W\<close>.
\<close>

definition cell_at :: "int \<Rightarrow> ResultType list list \<Rightarrow> int \<Rightarrow> ResultType" where
  "cell_at W m j = m ! nat (j mod W) ! nat (j div W)"

definition pixel_at :: "'d double_ops \<Rightarrow> int \<Rightarrow> int \<Rightarrow> int \<Rightarrow> ResultType" where
  "pixel_at fp W H j = pixel fp W H (j mod W) (j div W)"

definition item_of :: "'d double_ops \<Rightarrow> int \<Rightarrow> int \<Rightarrow> int \<Rightarrow> Item" where
  "item_of fp W H j = \<lparr> item_x = j mod W, item_y = j div W, item_res = pixel_at fp W H j \<rparr>"

text \<open>
  The sizes for which the model is the program: positive \<open>int\<close> sizes whose product
  does not overflow, a batch that fits the buffer of a thread, and a counter that stays
  an \<open>int\<close> when every thread has made its last \<open>fetch_add\<close>.
\<close>

definition sizes_ok :: "int \<Rightarrow> int \<Rightarrow> int \<Rightarrow> nat \<Rightarrow> bool" where
  "sizes_ok W H B n \<longleftrightarrow>
     1 \<le> W \<and> W < 2 ^ 31 \<and> 0 \<le> H \<and> H < 2 ^ 31 \<and> W * H < 2 ^ 31 \<and>
     1 \<le> B \<and> B \<le> cBufferSize \<and> (W * H) div B + int n < 2 ^ 31"

text \<open>
  The invariant of the loop. \<open>grid_shape\<close>: the grid has \<open>W\<close> columns of \<open>H\<close> cells.
  \<open>flushed b\<close>: every cell of batch \<open>b\<close> holds the kernel's value. \<open>grid_adv m m'\<close>:
  \<open>m'\<close> has the shape and differs from \<open>m\<close> only in covered cells that now hold the
  kernel's value.
\<close>

definition grid_shape :: "int \<Rightarrow> int \<Rightarrow> 'a list list \<Rightarrow> bool" where
  "grid_shape W H m \<longleftrightarrow> length m = nat W \<and> (\<forall>c\<in>set m. length c = nat H)"

definition flushed ::
  "int \<Rightarrow> 'd double_ops \<Rightarrow> int \<Rightarrow> int \<Rightarrow> ResultType list list \<Rightarrow> int \<Rightarrow> bool" where
  "flushed B fp W H m b \<longleftrightarrow>
     (\<forall>p. 0 \<le> p \<and> p < B \<longrightarrow> cell_at W m (b * B + p) = pixel_at fp W H (b * B + p))"

definition grid_adv ::
  "int \<Rightarrow> 'd double_ops \<Rightarrow> int \<Rightarrow> int \<Rightarrow> ResultType list list \<Rightarrow> ResultType list list \<Rightarrow> bool" where
  "grid_adv B fp W H m m' \<longleftrightarrow>
     grid_shape W H m' \<and>
     (\<forall>j. 0 \<le> j \<and> j < W * H \<longrightarrow>
        cell_at W m' j = cell_at W m j \<or>
        (j < covered W H B \<and> cell_at W m' j = pixel_at fp W H j))"

text \<open>
  A thread holds a batch while its buffer is not empty: \<open>batch_start\<close> is the first
  index of that batch, \<open>pending\<close> the indices of the batch it has yet to process.
  \<open>returned_count\<close> counts the threads that have returned.
\<close>

definition batch_start :: "thread \<Rightarrow> int" where
  "batch_start t =
     (if loc t = AtLoopTop then currentIndex t + 1 else currentIndex t) - lastPos (threadStack t)"

definition holding :: "thread \<Rightarrow> bool" where
  "holding t \<longleftrightarrow>
     (loc t = AtLoopTop \<or> loc t = AtSpin \<or> loc t = AtDump) \<and> 0 < lastPos (threadStack t)"

definition pending :: "int \<Rightarrow> thread \<Rightarrow> int multiset" where
  "pending B t =
     (if loc t = AtLoopTop \<and> 0 < lastPos (threadStack t)
      then mset_set {currentIndex t + 1 ..< batch_start t + B} else {#})"

definition returned_count :: "thread list \<Rightarrow> int" where
  "returned_count ts = sum_list (map (\<lambda>t. if loc t = Returned then 1 else 0) ts)"

text \<open>
  \<open>thread_ok\<close>: what holds of one thread, given the counter \<open>c\<close> and the grid \<open>m\<close>.
  \<open>sys_ok\<close>: what holds of the object and the indices processed so far (\<open>tr\<close>).
\<close>

definition thread_ok ::
  "int \<Rightarrow> 'd double_ops \<Rightarrow> int \<Rightarrow> int \<Rightarrow> int \<Rightarrow> ResultType list list \<Rightarrow> thread \<Rightarrow> bool" where
  "thread_ok B fp W H c m t \<longleftrightarrow>
     loc t \<noteq> Crashed \<and> 0 \<le> lastPos (threadStack t) \<and>
     (loc t = AtRelease \<or> loc t = AtClaim \<longrightarrow> lastPos (threadStack t) = 0) \<and>
     (loc t = AtLoopTop \<and> lastPos (threadStack t) = 0 \<longrightarrow> currentIndex t = - 1) \<and>
     (loc t = Returned \<longrightarrow> batches W H B < c) \<and>
     (holding t \<longrightarrow>
        batch_start t mod B = 0 \<and> 0 \<le> batch_start t \<and>
        batch_start t + B \<le> covered W H B \<and> batch_start t < c * B \<and>
        lastPos (threadStack t) \<le> B \<and>
        (loc t \<noteq> AtLoopTop \<longrightarrow> lastPos (threadStack t) = B) \<and>
        (\<forall>p. 0 \<le> p \<and> p < lastPos (threadStack t) \<longrightarrow>
           arr (threadStack t) (nat p) = item_of fp W H (batch_start t + p))) \<and>
     (loc t = AtDump \<longrightarrow>
        0 \<le> dump_i t \<and> dump_i t \<le> lastPos (threadStack t) \<and>
        (\<forall>p. 0 \<le> p \<and> p < dump_i t \<longrightarrow>
           cell_at W m (batch_start t + p) = pixel_at fp W H (batch_start t + p)))"

definition sys_ok ::
  "int \<Rightarrow> 'd double_ops \<Rightarrow> int \<Rightarrow> int \<Rightarrow> nat \<Rightarrow> (nat \<times> int) list \<Rightarrow> LockfreeMandelbrot \<Rightarrow> bool" where
  "sys_ok B fp W H n tr s \<longleftrightarrow>
     mWidthPixels s = W \<and> mHeightPixels s = H \<and> length (mThreads s) = n \<and>
     grid_shape W H (map_grid (mResults s)) \<and>
     int (mMandelbrotIterator s) \<le> batches W H B + returned_count (mThreads s) \<and>
     (\<forall>t\<in>set (mThreads s).
        thread_ok B fp W H (int (mMandelbrotIterator s)) (map_grid (mResults s)) t) \<and>
     (\<forall>j. covered W H B \<le> j \<and> j < W * H \<longrightarrow> cell_at W (map_grid (mResults s)) j = 0) \<and>
     (\<forall>b. 0 \<le> b \<and> b < int (mMandelbrotIterator s) \<and> b < batches W H B \<longrightarrow>
        flushed B fp W H (map_grid (mResults s)) b \<or>
        (\<exists>t\<in>set (mThreads s). holding t \<and> batch_start t = b * B)) \<and>
     mset (map snd tr) + sum_list (map (pending B) (mThreads s)) =
       mset_set {0 ..< min (int (mMandelbrotIterator s)) (batches W H B) * B}"

text \<open>
  A bound on the steps a thread has yet to take before it returns, when it runs alone
  and no \<open>compare_exchange_weak\<close> fails spuriously: \<open>2 * B + 6\<close> steps for each
  batch the counter may still hand out, and the steps to the next \<open>fetch_add\<close>.
\<close>

definition local_rank :: "int \<Rightarrow> bool \<Rightarrow> thread \<Rightarrow> int" where
  "local_rank B saving t =
     (case loc t of
        AtLoopTop \<Rightarrow> 2 * B + 6 - lastPos (threadStack t)
      | AtSpin \<Rightarrow> 4 + lastPos (threadStack t) + (if saving = dummy t then 0 else 1)
      | AtDump \<Rightarrow> 3 + (lastPos (threadStack t) - dump_i t)
      | AtRelease \<Rightarrow> 2
      | AtClaim \<Rightarrow> 1
      | Returned \<Rightarrow> 0
      | Crashed \<Rightarrow> 0)"

definition steps_left :: "int \<Rightarrow> int \<Rightarrow> int \<Rightarrow> LockfreeMandelbrot \<Rightarrow> nat \<Rightarrow> int" where
  "steps_left B W H s k =
     max 0 (batches W H B - int (mMandelbrotIterator s)) * (2 * B + 6) +
     local_rank B (mIsSavingResults s) (mThreads s ! k)"

text \<open>
  A thread is inside the flush: it has won the \<open>compare_exchange_weak\<close> and has not
  yet stored \<open>false\<close> in \<open>mIsSavingResults\<close>. \<open>race_schedule\<close>: thread 0 takes two
  steps, then thread 1 three.
\<close>

definition in_flush :: "thread \<Rightarrow> bool" where
  "in_flush t \<longleftrightarrow> loc t = AtDump \<or> loc t = AtRelease"

definition race_schedule :: "(nat \<times> bool) list" where
  "race_schedule = [(0, False), (0, False), (1, False), (1, False), (1, False)]"

text \<open>
  The five steps that take thread \<open>k\<close> from the start of \<open>loop()\<close> through its first
  flush and its first \<open>fetch_add\<close> to the first index of the batch it is given.
\<close>

definition first_batch_schedule :: "nat \<Rightarrow> (nat \<times> bool) list" where
  "first_batch_schedule k = [(k, False), (k, False), (k, False), (k, False), (k, False)]"

text \<open>
  Schedules for runs on a grid of 5 by 1: one thread alone; two threads, each
  processing a batch before either flushes; two threads that only ask for a batch.
\<close>

definition solo_schedule :: "(nat \<times> bool) list" where
  "solo_schedule = replicate 21 (0, False)"

definition duo_schedule :: "(nat \<times> bool) list" where
  "duo_schedule =
     replicate 7 (0, False) @ replicate 6 (1, False) @ replicate 7 (0, False) @ replicate 7 (1, False)"

definition idle_schedule :: "(nat \<times> bool) list" where
  "idle_schedule = replicate 5 (0, False) @ replicate 5 (1, False)"

section \<open>The escape-time kernel\<close>

lemma of_nat_eq_cMax: "k \<le> 1000 \<Longrightarrow> ((of_nat k :: 32 word) = cMaxIterations) = (k = 1000)"
proof -
  assume k: "k \<le> 1000"
  have "unat (of_nat k :: 32 word) = k"
    using k by (simp add: unat_of_nat)
  moreover have "unat (cMaxIterations) = 1000"
    by (simp add: cMaxIterations_def)
  ultimately have "(of_nat k :: 32 word) = cMaxIterations \<Longrightarrow> k = 1000"
    by auto
  moreover have "k = 1000 \<Longrightarrow> (of_nat k :: 32 word) = cMaxIterations"
    by (simp add: cMaxIterations_def)
  ultimately show ?thesis by blast
qed

lemma render_loop_orbit:
  "k \<le> 1000 \<Longrightarrow> 1000 - k = d \<Longrightarrow>
   unat (render_loop fp cx cy (fst (orbit fp cx cy k)) (snd (orbit fp cx cy k)) (of_nat k)) =
     (case find (\<lambda>n. escaped fp (orbit fp cx cy (Suc n))) [k..<1000] of
        Some n \<Rightarrow> n | None \<Rightarrow> 1000)"
proof (induction d arbitrary: k)
  case 0
  then have k: "k = 1000" by simp
  show ?case
    by (subst render_loop.simps) (simp add: k cMaxIterations_def)
next
  case (Suc d)
  then have k: "k < 1000" and d: "1000 - Suc k = d" and k': "Suc k \<le> 1000" by simp_all
  have ne: "(of_nat k :: 32 word) \<noteq> cMaxIterations"
    using k by (simp add: of_nat_eq_cMax)
  have un: "unat (of_nat k :: 32 word) = k"
    using k by (simp add: unat_of_nat)
  have upt: "[k..<1000] = k # [Suc k..<1000]"
    using k by (simp add: upt_conv_Cons)
  have step: "orbit fp cx cy (Suc k) = mandel_step fp cx cy (orbit fp cx cy k)" by simp
  show ?case
  proof (cases "escaped fp (orbit fp cx cy (Suc k))")
    case True
    then show ?thesis
      apply (subst render_loop.simps)
      apply (simp add: ne upt un Let_def escaped_def mandel_step_def del: upt_Suc)
      done
  next
    case False
    have ih: "unat (render_loop fp cx cy (fst (orbit fp cx cy (Suc k))) (snd (orbit fp cx cy (Suc k))) (of_nat (Suc k))) =
     (case find (\<lambda>n. escaped fp (orbit fp cx cy (Suc n))) [Suc k..<1000] of
        Some n \<Rightarrow> n | None \<Rightarrow> 1000)"
      by (rule Suc.IH [OF k' d])
    from False show ?thesis
      apply (subst render_loop.simps)
      apply (simp only: ne if_False Let_def)
      apply (subst upt)
      using ih
      apply (simp add: escaped_def mandel_step_def add.commute del: upt_Suc)
      done
  qed
qed


lemma render_fuel_enough:
  "k \<le> 1000 \<Longrightarrow> 1000 - k = d \<Longrightarrow>
   render_fuel d fp cx cy x y (of_nat k) = Some (render_loop fp cx cy x y (of_nat k))"
proof (induction d arbitrary: k x y)
  case 0
  then have k: "k = 1000" by simp
  show ?case
    by (subst render_loop.simps) (simp add: k cMaxIterations_def)
next
  case (Suc d)
  then have k: "k < 1000" and d: "1000 - Suc k = d" and k': "Suc k \<le> 1000" by simp_all
  have ne: "(of_nat k :: 32 word) \<noteq> cMaxIterations"
    using k by (simp add: of_nat_eq_cMax)
  have nxt: "(of_nat k :: 32 word) + 1 = of_nat (Suc k)" by simp
  show ?case
    apply (subst render_loop.simps)
    apply (simp only: render_fuel.simps ne if_False Let_def nxt)
    apply (simp only: Suc.IH [OF k' d])
    apply simp
    done
qed

lemma find_upt_bound:
  "(case find P [k..<n] of Some m \<Rightarrow> m | None \<Rightarrow> n) \<le> n"
  by (auto split: option.splits simp: find_Some_iff)

lemma find_upt_full:
  "((case find P [k..<n] of Some m \<Rightarrow> m | None \<Rightarrow> n) = n) = (\<forall>m. k \<le> m \<and> m < n \<longrightarrow> \<not> P m)"
  by (auto split: option.splits simp: find_Some_iff find_None_iff)

lemma unat_render:
  "unat (render fp cx cy) = escape_time fp cx cy"
proof -
  have a: "unat (render_loop fp cx cy (fromi fp 0) (fromi fp 0) 0) = escape_time fp cx cy"
    using render_loop_orbit [of 0 1000 fp cx cy] by (simp add: escape_time_def)
  have "escape_time fp cx cy \<le> 1000"
    unfolding escape_time_def by (rule find_upt_bound)
  with a have "unat (render_loop fp cx cy (fromi fp 0) (fromi fp 0) 0) < 2 ^ 16"
    by simp
  then have "unat (ucast (render_loop fp cx cy (fromi fp 0) (fromi fp 0) 0) :: 16 word) =
      unat (render_loop fp cx cy (fromi fp 0) (fromi fp 0) 0)"
    by (simp add: unsigned_ucast_eq take_bit_nat_eq_self)
  with a show ?thesis by (simp add: render_def)
qed

text \<open>
  Claim C7. For every pair of doubles \<open>(cx, cy)\<close> and whatever the double arithmetic
  is, \<open>render\<close> returns the count of the reference recurrence (\<open>escape_time\<close>), a
  value between 0 and 1000, and 1000 exactly when none of the first 1000 iterates
  escapes; its loop ends within 1000 runs of its body (\<open>render_fuel 1000\<close> returns
  what \<open>render_loop\<close> returns).
\<close>

theorem render_escape_time:
  "unat (render fp cx cy) = escape_time fp cx cy \<and>
   unat (render fp cx cy) \<le> 1000 \<and>
   ((unat (render fp cx cy) = 1000) = (\<forall>n<1000. \<not> escaped fp (orbit fp cx cy (Suc n)))) \<and>
   render_fuel 1000 fp cx cy (fromi fp 0) (fromi fp 0) 0 =
     Some (render_loop fp cx cy (fromi fp 0) (fromi fp 0) 0)"
proof (intro conjI)
  show "unat (render fp cx cy) = escape_time fp cx cy" by (rule unat_render)
  show "unat (render fp cx cy) \<le> 1000"
    unfolding unat_render escape_time_def by (rule find_upt_bound)
  show "(unat (render fp cx cy) = 1000) = (\<forall>n<1000. \<not> escaped fp (orbit fp cx cy (Suc n)))"
    unfolding unat_render escape_time_def by (simp add: find_upt_full)
  show "render_fuel 1000 fp cx cy (fromi fp 0) (fromi fp 0) 0 =
     Some (render_loop fp cx cy (fromi fp 0) (fromi fp 0) 0)"
    using render_fuel_enough [of 0 1000 fp cx cy] by simp
qed

lemma escape_time_3: "escape_time exact_ops 3 0 = 0"
proof -
  have upt: "[0..<1000] = 0 # [Suc 0..<1000]"
    by (rule upt_conv_Cons) simp
  have esc: "escaped exact_ops (orbit exact_ops 3 0 (Suc 0))"
    by (simp add: escaped_def mandel_step_def exact_ops_def)
  show ?thesis
    unfolding escape_time_def upt using esc by simp
qed

theorem render_escape_time_witness:
  "unat (render exact_ops 3 0) = 0 \<and> escape_time exact_ops 3 0 = 0 \<and>
   render_fuel 1000 exact_ops 3 0 0 0 0 = Some 0"
proof -
  note r = render_escape_time [of exact_ops 3 0]
  have a: "unat (render exact_ops 3 0) = 0"
    using r escape_time_3 by simp
  have "render_loop exact_ops 3 0 0 0 0 = 0"
    by (subst render_loop.simps) (simp add: exact_ops_def cMaxIterations_def)
  moreover have "fromi exact_ops 0 = 0"
    by (simp add: exact_ops_def)
  ultimately have b: "render_fuel 1000 exact_ops 3 0 0 0 0 = Some 0"
    using r by simp
  from a b escape_time_3 show ?thesis by simp
qed

section \<open>The renderer\<close>

lemma less4: "(k::nat) < 4 \<longleftrightarrow> k = 0 \<or> k = 1 \<or> k = 2 \<or> k = 3"
  by auto

lemma all_less4: "(\<forall>j<4::nat. P j) \<longleftrightarrow> P 0 \<and> P 1 \<and> P 2 \<and> P 3"
  by (auto simp: less4)

lemma draw_cell_low:
  assumes "uint r \<le> 1000"
  shows "\<exists>k<4. threshold_branches r ! k \<and> (\<forall>j<4. threshold_branches r ! j \<longrightarrow> j = k) \<and>
           draw_cell r = Some (branch_chars ! k)"
proof -
  consider "uint r \<le> 10" | "10 < uint r" "uint r \<le> 100" | "100 < uint r" "uint r \<le> 200"
    | "200 < uint r" "uint r \<le> 1000"
    using assms by linarith
  then show ?thesis
  proof cases
    case 1
    then show ?thesis
      by (intro exI [of _ 0]) (simp add: all_less4 threshold_branches_def draw_cell_def branch_chars_def)
  next
    case 2
    then show ?thesis
      by (intro exI [of _ 1]) (simp add: all_less4 threshold_branches_def draw_cell_def branch_chars_def)
  next
    case 3
    then show ?thesis
      by (intro exI [of _ 2]) (simp add: all_less4 threshold_branches_def draw_cell_def branch_chars_def)
  next
    case 4
    then show ?thesis
      by (intro exI [of _ 3]) (simp add: all_less4 threshold_branches_def draw_cell_def branch_chars_def)
  qed
qed

lemma draw_cell_high:
  assumes "1000 < uint r"
  shows "(\<forall>j<4. \<not> threshold_branches r ! j) \<and> draw_cell r = None"
  using assms by (simp add: all_less4 threshold_branches_def draw_cell_def)

lemma uint_render: "uint (render fp cx cy) \<le> 1000"
proof -
  have "escape_time fp cx cy \<le> 1000"
    unfolding escape_time_def by (rule find_upt_bound)
  then have "unat (render fp cx cy) \<le> 1000"
    by (simp add: unat_render)
  then have "int (unat (render fp cx cy)) \<le> 1000"
    by linarith
  then show ?thesis
    by (simp only: uint_nat)
qed

text \<open>
  Claim C10. For a cell value \<open>r\<close> of at most 1000, exactly one of the four
  conditions of the \<open>if\<close> chain of \<open>drawFromResults\<close> holds and its branch assigns
  the character; for \<open>r > 1000\<close> no condition holds and no branch assigns it. Every
  value \<open>render\<close> returns is at most 1000, so it gets a character.
\<close>

theorem drawFromResults_one_branch:
  "(uint r \<le> 1000 \<longrightarrow>
      (\<exists>k<4. threshold_branches r ! k \<and> (\<forall>j<4. threshold_branches r ! j \<longrightarrow> j = k) \<and>
         draw_cell r = Some (branch_chars ! k))) \<and>
   (1000 < uint r \<longrightarrow> (\<forall>j<4. \<not> threshold_branches r ! j) \<and> draw_cell r = None) \<and>
   uint (render fp cx cy) \<le> 1000 \<and> draw_cell (render fp cx cy) \<noteq> None"
proof (intro conjI impI)
  assume "uint r \<le> 1000"
  then show "\<exists>k<4. threshold_branches r ! k \<and> (\<forall>j<4. threshold_branches r ! j \<longrightarrow> j = k) \<and>
         draw_cell r = Some (branch_chars ! k)"
    by (rule draw_cell_low)
next
  assume "1000 < uint r"
  then show "\<forall>j<4. \<not> threshold_branches r ! j" and "draw_cell r = None"
    using draw_cell_high by blast+
next
  show "uint (render fp cx cy) \<le> 1000" by (rule uint_render)
  then show "draw_cell (render fp cx cy) \<noteq> None"
    using draw_cell_low [of "render fp cx cy"] by auto
qed

theorem drawFromResults_one_branch_witness:
  "threshold_branches 31 = [False, True, False, False] \<and> draw_cell 31 = Some (CHR ''.'') \<and>
   threshold_branches 1001 = [False, False, False, False] \<and> draw_cell 1001 = None \<and>
   draw_cell (render exact_ops 3 0) = Some (CHR '' '') "
proof -
  note t = drawFromResults_one_branch [of 31 exact_ops 3 0]
  have "uint (31 :: 16 word) \<le> 1000" by simp
  with t have "\<exists>k<4. threshold_branches 31 ! k \<and> draw_cell 31 = Some (branch_chars ! k)"
    by blast
  moreover have tb: "threshold_branches 31 = [False, True, False, False]"
    by (simp add: threshold_branches_def)
  ultimately have a: "draw_cell 31 = Some (CHR ''.'')"
    by (auto simp: less4 branch_chars_def)
  have b: "threshold_branches 1001 = [False, False, False, False] \<and> draw_cell 1001 = None"
    by (simp add: threshold_branches_def draw_cell_def)
  have "render exact_ops 3 0 = 0"
    unfolding render_def
    by (subst render_loop.simps) (simp add: exact_ops_def cMaxIterations_def)
  then have c: "draw_cell (render exact_ops 3 0) = Some (CHR '' '')"
    by (simp add: draw_cell_def)
  from a b c tb show ?thesis by simp
qed

section \<open>The thread-local buffer\<close>

lemma same_shape_refl: "same_shape m m"
  by (simp add: same_shape_def)

lemma same_shape_length: "same_shape m m' \<Longrightarrow> length m' = length m"
  unfolding same_shape_def by (rule map_eq_imp_length_eq)

lemma same_shape_nth:
  assumes "same_shape m m'" "x < length m"
  shows "length (m' ! x) = length (m ! x)"
proof -
  have "length (m' ! x) = map length m' ! x"
    using assms same_shape_length [OF assms(1)] by simp
  also have "\<dots> = map length m ! x"
    using assms(1) by (simp add: same_shape_def)
  also have "\<dots> = length (m ! x)"
    using assms(2) by simp
  finally show ?thesis .
qed

lemma same_shape_trans: "same_shape a b \<Longrightarrow> same_shape b c \<Longrightarrow> same_shape a c"
  by (simp add: same_shape_def)

lemma in_grid_same_shape:
  assumes "same_shape m m'"
  shows "in_grid m' e = in_grid m e"
  using same_shape_length [OF assms] same_shape_nth [OF assms, of "nat (item_x e)"]
  by (auto simp: in_grid_def)

lemma find_append:
  "find P (xs @ ys) = (case find P xs of Some x \<Rightarrow> Some x | None \<Rightarrow> find P ys)"
  by (induction xs) simp_all

lemma write_cell_Some:
  "in_grid m e \<Longrightarrow>
   write_cell m e = Some (m[nat (item_x e) := (m ! nat (item_x e))[nat (item_y e) := item_res e]])"
  by (simp add: write_cell_def in_grid_def)

lemma write_cell_in_grid: "write_cell m e = Some m' \<Longrightarrow> in_grid m e"
  by (auto simp: write_cell_def in_grid_def split: if_splits)

lemma write_cell_shape: "write_cell m e = Some m' \<Longrightarrow> same_shape m m'"
  by (auto simp: write_cell_def same_shape_def map_update split: if_splits
      intro!: nth_equalityI simp: nth_list_update)

lemma write_cell_nth:
  assumes "write_cell m e = Some m'" "x < length m" "y < length (m ! x)"
  shows "m' ! x ! y = (if at_cell x y e then item_res e else m ! x ! y)"
  using assms
  by (auto simp: write_cell_def at_cell_def nth_list_update split: if_splits)

lemma write_all_shape: "write_all es m = Some m' \<Longrightarrow> same_shape m m'"
proof (induction es arbitrary: m)
  case Nil
  then show ?case by (simp add: same_shape_refl)
next
  case (Cons e es)
  then show ?case
    by (auto split: option.splits intro: same_shape_trans write_cell_shape)
qed

lemma write_all_Some:
  "\<forall>e\<in>set es. in_grid m e \<Longrightarrow> \<exists>m'. write_all es m = Some m'"
proof (induction es arbitrary: m)
  case Nil
  then show ?case by simp
next
  case (Cons e es)
  then have e: "in_grid m e" by simp
  let ?m1 = "m[nat (item_x e) := (m ! nat (item_x e))[nat (item_y e) := item_res e]]"
  have w: "write_cell m e = Some ?m1" using e by (rule write_cell_Some)
  have "same_shape m ?m1" using w by (rule write_cell_shape)
  then have "\<forall>e'\<in>set es. in_grid ?m1 e'"
    using Cons.prems by (simp add: in_grid_same_shape)
  then obtain m' where "write_all es ?m1 = Some m'"
    using Cons.IH by blast
  then show ?case using w by simp
qed

lemma write_all_nth:
  assumes "write_all es m = Some m'" "x < length m" "y < length (m ! x)"
  shows "m' ! x ! y =
     (case find (at_cell x y) (rev es) of Some e \<Rightarrow> item_res e | None \<Rightarrow> m ! x ! y)"
  using assms
proof (induction es arbitrary: m)
  case Nil
  then show ?case by simp
next
  case (Cons e es)
  from Cons.prems(1) obtain m1 where w: "write_cell m e = Some m1" and r: "write_all es m1 = Some m'"
    by (auto split: option.splits)
  have sh: "same_shape m m1" using w by (rule write_cell_shape)
  have x1: "x < length m1" using sh Cons.prems(2) by (simp add: same_shape_length)
  have y1: "y < length (m1 ! x)" using sh Cons.prems(2,3) by (simp add: same_shape_nth)
  have ih: "m' ! x ! y =
     (case find (at_cell x y) (rev es) of Some e \<Rightarrow> item_res e | None \<Rightarrow> m1 ! x ! y)"
    by (rule Cons.IH [OF r x1 y1])
  have m1: "m1 ! x ! y = (if at_cell x y e then item_res e else m ! x ! y)"
    by (rule write_cell_nth [OF w Cons.prems(2,3)])
  show ?case
    by (simp add: ih m1 find_append split: option.splits)
qed

lemma find_rev_last:
  assumes "p < length es" "P (es ! p)" "\<forall>q. p < q \<and> q < length es \<longrightarrow> \<not> P (es ! q)"
  shows "find P (rev es) = Some (es ! p)"
  using assms
proof (induction es rule: rev_induct)
  case Nil
  then show ?case by simp
next
  case (snoc e es)
  show ?case
  proof (cases "p = length es")
    case True
    with snoc.prems(2) show ?thesis by simp
  next
    case False
    with snoc.prems(1) have p: "p < length es" by simp
    have "\<not> P ((es @ [e]) ! length es)"
      using snoc.prems(3) [rule_format, of "length es"] p by simp
    then have ne: "\<not> P e" by simp
    have "find P (rev es) = Some (es ! p)"
    proof (rule snoc.IH [OF p])
      show "P (es ! p)" using snoc.prems(2) p by (simp add: nth_append)
      show "\<forall>q. p < q \<and> q < length es \<longrightarrow> \<not> P (es ! q)"
      proof (intro allI impI)
        fix q assume q: "p < q \<and> q < length es"
        then have "\<not> P ((es @ [e]) ! q)" using snoc.prems(3) [rule_format, of q] by simp
        with q show "\<not> P (es ! q)" by (simp add: nth_append)
      qed
    qed
    with ne p show ?thesis by (simp add: nth_append)
  qed
qed

lemma dump_loop_write_all:
  "0 \<le> i \<Longrightarrow> i \<le> lastPos st \<Longrightarrow> lastPos st \<le> cBufferSize \<Longrightarrow> nat (lastPos st - i) = d \<Longrightarrow>
   dump_loop st i m = write_all (map (arr st) [nat i..<nat (lastPos st)]) m"
proof (induction d arbitrary: i m)
  case 0
  then have "i = lastPos st" by simp
  then show ?case
    by (subst dump_loop.simps) simp
next
  case (Suc d)
  then have lt: "i < lastPos st" and i0: "0 \<le> i" and cap: "i < cBufferSize" by simp_all
  have upt: "[nat i..<nat (lastPos st)] = nat i # [nat (i + 1)..<nat (lastPos st)]"
    using lt i0 by (simp add: upt_conv_Cons nat_add_distrib)
  have ih: "\<And>m'. dump_loop st (i + 1) m' =
      write_all (map (arr st) [nat (i + 1)..<nat (lastPos st)]) m'"
    using Suc.prems by (intro Suc.IH) simp_all
  show ?case
    apply (subst dump_loop.simps)
    using lt i0 cap
    apply (simp add: upt ih split: option.splits)
    done
qed

lemma dumpToMap_write_all:
  assumes "0 \<le> lastPos st" "lastPos st \<le> cBufferSize"
  shows "dumpToMap st m =
    (case write_all (entries st) m of None \<Rightarrow> None | Some m' \<Rightarrow> Some (st\<lparr>lastPos := 0\<rparr>, m'))"
  using dump_loop_write_all [of 0 st "nat (lastPos st)" m] assms
  by (simp add: dumpToMap_def entries_def)

text \<open>
  Claim C8, amended. For a buffer of \<open>lastPos\<close> entries (at most \<open>cBufferSize\<close>) that
  all lie inside the grid, \<open>dumpToMap\<close> returns; afterwards the buffer is empty, the
  grid has its shape, the cell of each entry that no later entry of the buffer
  overwrites holds that entry's result (so every entry's, when the coordinates are
  pairwise different), and every cell that is no entry's coordinate is unchanged.
\<close>

theorem dumpToMap_last_entry_wins:
  assumes "0 \<le> lastPos st" and "lastPos st \<le> cBufferSize"
    and "\<forall>e\<in>set (entries st). in_grid m e"
  shows "\<exists>m'. dumpToMap st m = Some (st\<lparr>lastPos := 0\<rparr>, m') \<and>
           lastPos (st\<lparr>lastPos := 0\<rparr>) = 0 \<and> entries (st\<lparr>lastPos := 0\<rparr>) = [] \<and>
           same_shape m m' \<and>
           (\<forall>p<length (entries st).
              (\<forall>q. p < q \<and> q < length (entries st) \<longrightarrow>
                 (item_x (entries st ! q), item_y (entries st ! q)) \<noteq>
                 (item_x (entries st ! p), item_y (entries st ! p))) \<longrightarrow>
              m' ! nat (item_x (entries st ! p)) ! nat (item_y (entries st ! p)) =
                item_res (entries st ! p)) \<and>
           (\<forall>x<length m. \<forall>y<length (m ! x).
              (\<forall>e\<in>set (entries st). (item_x e, item_y e) \<noteq> (int x, int y)) \<longrightarrow>
              m' ! x ! y = m ! x ! y)"
proof -
  let ?es = "entries st"
  obtain m' where w: "write_all ?es m = Some m'"
    using write_all_Some [OF assms(3)] by blast
  have d: "dumpToMap st m = Some (st\<lparr>lastPos := 0\<rparr>, m')"
    using dumpToMap_write_all [OF assms(1,2), of m] w by simp
  have sh: "same_shape m m'" using w by (rule write_all_shape)
  have last: "m' ! nat (item_x (?es ! p)) ! nat (item_y (?es ! p)) = item_res (?es ! p)"
    if p: "p < length ?es"
      and later: "\<forall>q. p < q \<and> q < length ?es \<longrightarrow>
                 (item_x (?es ! q), item_y (?es ! q)) \<noteq> (item_x (?es ! p), item_y (?es ! p))"
    for p
  proof -
    let ?e = "?es ! p"
    have g: "in_grid m ?e" using assms(3) p by simp
    let ?x = "nat (item_x ?e)" and ?y = "nat (item_y ?e)"
    have x: "?x < length m" and y: "?y < length (m ! ?x)"
      and xe: "item_x ?e = int ?x" and ye: "item_y ?e = int ?y"
      using g by (simp_all add: in_grid_def)
    have P: "at_cell ?x ?y ?e" using xe ye by (simp add: at_cell_def)
    have nP: "\<forall>q. p < q \<and> q < length ?es \<longrightarrow> \<not> at_cell ?x ?y (?es ! q)"
      using later xe ye by (auto simp: at_cell_def)
    have "find (at_cell ?x ?y) (rev ?es) = Some ?e"
      by (rule find_rev_last [OF p P nP])
    then show ?thesis
      using write_all_nth [OF w x y] by simp
  qed
  have frame: "m' ! x ! y = m ! x ! y"
    if x: "x < length m" and y: "y < length (m ! x)"
      and no: "\<forall>e\<in>set ?es. (item_x e, item_y e) \<noteq> (int x, int y)"
    for x y
  proof -
    have "find (at_cell x y) (rev ?es) = None"
      using no by (auto simp: find_None_iff at_cell_def)
    then show ?thesis
      using write_all_nth [OF w x y] by simp
  qed
  have e: "entries (st\<lparr>lastPos := 0\<rparr>) = []"
    by (simp add: entries_def)
  from d sh last frame e show ?thesis
    by (intro exI [of _ m']) simp
qed

lemma entries_stack2:
  "entries stack2 = [\<lparr> item_x = 0, item_y = 0, item_res = 1 \<rparr>, \<lparr> item_x = 0, item_y = 0, item_res = 2 \<rparr>]"
  by (simp add: entries_def stack2_def upt_conv_Cons)

lemma dumpToMap_stack2: "dumpToMap stack2 [[0]] = Some (stack2\<lparr>lastPos := 0\<rparr>, [[2]])"
  by (simp add: dumpToMap_def dump_loop.simps stack2_def cBufferSize_def write_cell_def)

text \<open>
  Claim C8 as stated fails: with two entries for the same cell, the cell does not hold
  the result of the first one after the flush.
\<close>

theorem dumpToMap_every_entry_counterexample:
  "entries stack2 =
     [\<lparr> item_x = 0, item_y = 0, item_res = 1 \<rparr>, \<lparr> item_x = 0, item_y = 0, item_res = 2 \<rparr>] \<and>
   dumpToMap stack2 [[0]] = Some (stack2\<lparr>lastPos := 0\<rparr>, [[2]]) \<and>
   [[2 :: ResultType]] ! nat (item_x (entries stack2 ! 0)) ! nat (item_y (entries stack2 ! 0))
     \<noteq> item_res (entries stack2 ! 0)"
  by (simp add: entries_stack2 dumpToMap_stack2)

theorem dumpToMap_last_entry_wins_witness:
  "0 \<le> lastPos stack2 \<and> lastPos stack2 \<le> cBufferSize \<and>
   list_all (in_grid [[0]]) (entries stack2) \<and>
   dumpToMap stack2 [[0]] = Some (stack2\<lparr>lastPos := 0\<rparr>, [[2]]) \<and>
   entries (stack2\<lparr>lastPos := 0\<rparr>) = []"
proof -
  have a: "0 \<le> lastPos stack2" by (simp add: stack2_def)
  have b: "lastPos stack2 \<le> cBufferSize" by (simp add: stack2_def cBufferSize_def)
  have c: "\<forall>e\<in>set (entries stack2). in_grid [[0]] e"
    by (simp add: entries_stack2 in_grid_def)
  from dumpToMap_last_entry_wins [OF a b c] dumpToMap_stack2
  have "entries (stack2\<lparr>lastPos := 0\<rparr>) = []" by blast
  with a b c dumpToMap_stack2 show ?thesis
    by (simp add: list_all_iff)
qed

text \<open>
  An entry outside the grid makes \<open>dumpToMap\<close> index the grid out of range, which the
  model reports as \<open>None\<close>: the flush has no defined result there.
\<close>

lemma dumpToMap_outside_grid:
  "\<not> in_grid [[0]] (entries stack_outside ! 0) \<and> dumpToMap stack_outside [[0]] = None"
  by (simp add: dumpToMap_def dump_loop.simps stack_outside_def cBufferSize_def write_cell_def
      in_grid_def entries_def)
section \<open>The worker loop under every interleaving\<close>

lemma s32_id: "- (2 ^ 31) \<le> v \<Longrightarrow> v < 2 ^ 31 \<Longrightarrow> s32 v = v"
  by (simp add: s32_def)

lemma u64_id: "0 \<le> v \<Longrightarrow> v < 2 ^ 64 \<Longrightarrow> u64 v = v"
  by (simp add: u64_def)

lemma smod_nonneg: "0 \<le> a \<Longrightarrow> 0 < b \<Longrightarrow> a smod b = a mod (b :: int)"
  by (cases "a = 0") (simp_all add: signed_modulo_int_def sgn_if)

lemma sdiv_nonneg: "0 \<le> a \<Longrightarrow> 0 < b \<Longrightarrow> a sdiv b = a div (b :: int)"
  by (cases "a = 0") (simp_all add: signed_divide_int_def sgn_if)

lemma positionFromIndex_eq:
  assumes "0 \<le> j" "j < 2 ^ 31" "1 \<le> W" "W < 2 ^ 31"
  shows "positionFromIndex W j = (j mod W, j div W)"
proof -
  have j: "u64 j = j" using assms by (simp add: u64_id)
  have w: "u64 W = W" using assms by (simp add: u64_id)
  have d0: "0 \<le> j div W" using assms by (simp add: pos_imp_zdiv_nonneg_iff)
  have d1: "j div W \<le> j" using assms int_div_le_self by force
  have y: "s32 (j div W) = j div W" using d0 d1 assms by (simp add: s32_id)
  have m0: "0 \<le> j div W * W" using d0 assms by simp
  have "j div W * W + j mod W = j" by simp
  moreover have "0 \<le> j mod W" using assms by simp
  ultimately have m1: "j div W * W \<le> j" by linarith
  have yw: "u64 (j div W * W) = j div W * W" using m0 m1 assms by (simp add: u64_id)
  have r: "j - j div W * W = j mod W" by (simp add: minus_div_mult_eq_mod)
  have r0: "0 \<le> j mod W" and r1: "j mod W < W" using assms by simp_all
  have r2: "j mod W < 2 ^ 31" using r1 assms by linarith
  have "u64 (j mod W) = j mod W" using r0 r2 by (intro u64_id) simp_all
  moreover have "s32 (j mod W) = j mod W" using r0 r2 by (intro s32_id) simp_all
  ultimately have x: "s32 (u64 (j mod W)) = j mod W" by simp
  show ?thesis
    by (simp add: positionFromIndex_def Let_def j w y yw r x)
qed


lemma sum_list_map_update:
  fixes f :: "'a \<Rightarrow> 'b::comm_monoid_add"
  shows "k < length xs \<Longrightarrow>
    sum_list (map f (xs[k := y])) + f (xs ! k) = sum_list (map f xs) + f y"
proof (induction xs arbitrary: k)
  case Nil
  then show ?case by simp
next
  case (Cons x xs)
  show ?case
  proof (cases k)
    case 0
    then show ?thesis by (simp add: ac_simps)
  next
    case (Suc k')
    with Cons.prems have "k' < length xs" by simp
    from Cons.IH [OF this] Suc show ?thesis
      by (simp add: ac_simps)
  qed
qed

lemma set_update_other: "u \<in> set xs \<Longrightarrow> u \<noteq> xs ! k \<Longrightarrow> u \<in> set (xs[k := y])"
proof -
  assume u: "u \<in> set xs" and ne: "u \<noteq> xs ! k"
  then obtain i where i: "i < length xs" "xs ! i = u"
    by (auto simp: in_set_conv_nth)
  with ne have "i \<noteq> k" by auto
  with i have "xs[k := y] ! i = u" "i < length (xs[k := y])" by simp_all
  then show ?thesis by (metis nth_mem)
qed

lemma covered_le: "1 \<le> B \<Longrightarrow> covered W H B \<le> W * H"
proof -
  assume B: "1 \<le> B"
  have "(W * H) div B * B + (W * H) mod B = W * H" by simp
  moreover have "0 \<le> (W * H) mod B" using B by simp
  ultimately show ?thesis unfolding covered_def batches_def by linarith
qed

lemma batches_nonneg: "1 \<le> B \<Longrightarrow> 0 \<le> W * H \<Longrightarrow> 0 \<le> batches W H B"
  by (simp add: batches_def pos_imp_zdiv_nonneg_iff)

lemma batch_index_covered:
  assumes "1 \<le> B" "0 \<le> b" "b < batches W H B" "0 \<le> p" "p < B"
  shows "0 \<le> b * B + p \<and> b * B + p < covered W H B"
proof -
  have "b + 1 \<le> batches W H B" using assms by simp
  then have "(b + 1) * B \<le> batches W H B * B"
    using assms(1) by (intro mult_right_mono) simp_all
  then have "b * B + B \<le> covered W H B"
    by (simp add: covered_def algebra_simps)
  moreover have "0 \<le> b * B" using assms by simp
  ultimately show ?thesis using assms by linarith
qed

lemma index_inj: "i mod W = j mod W \<Longrightarrow> i div W = j div W \<Longrightarrow> i = (j::int)"
  by (metis mult_div_mod_eq)

lemma div_less_rows:
  assumes "1 \<le> W" "j < W * H"
  shows "j div W < (H::int)"
proof (rule ccontr)
  assume "\<not> j div W < H"
  then have "H \<le> j div W" by simp
  then have "W * H \<le> W * (j div W)"
    using assms(1) by (intro mult_left_mono) simp_all
  moreover have "W * (j div W) + j mod W = j" by simp
  moreover have "0 \<le> j mod W" using assms(1) by simp
  ultimately show False using assms(2) by linarith
qed

lemma cell_coords:
  fixes W H j :: int
  assumes "1 \<le> W" "0 \<le> j" "j < W * H"
  shows "0 \<le> j mod W \<and> j mod W < W \<and> 0 \<le> j div W \<and> j div W < H"
  using assms div_less_rows [OF assms(1,3)] by (simp add: pos_imp_zdiv_nonneg_iff)

lemma grid_shape_nth:
  "grid_shape W H m \<Longrightarrow> x < nat W \<Longrightarrow> length (m ! x) = nat H"
  by (simp add: grid_shape_def)

lemma grid_shape_update:
  assumes "grid_shape W H m" "x < nat W"
  shows "grid_shape W H (m[x := (m ! x)[y := r]])"
proof -
  have "\<forall>c\<in>set (m[x := (m ! x)[y := r]]). length c = nat H"
  proof
    fix c assume "c \<in> set (m[x := (m ! x)[y := r]])"
    then have "c = (m ! x)[y := r] \<or> c \<in> set m"
      using set_update_subset_insert [of m x "(m ! x)[y := r]"] by auto
    then show "length c = nat H"
      using assms by (auto simp: grid_shape_def)
  qed
  then show ?thesis using assms by (simp add: grid_shape_def)
qed

lemma write_item_of:
  assumes shape: "grid_shape W H m" and W: "1 \<le> W" and j0: "0 \<le> j" and j1: "j < W * H"
  shows "\<exists>m'. write_cell m (item_of fp W H j) = Some m' \<and> grid_shape W H m' \<and>
           (\<forall>i. 0 \<le> i \<and> i < W * H \<longrightarrow>
              cell_at W m' i = (if i = j then pixel_at fp W H j else cell_at W m i))"
proof -
  let ?x = "nat (j mod W)" and ?y = "nat (j div W)"
  let ?m' = "m[?x := (m ! ?x)[?y := pixel_at fp W H j]]"
  have c: "0 \<le> j mod W" "j mod W < W" "0 \<le> j div W" "j div W < H"
    using cell_coords [OF W j0 j1] by simp_all
  have x: "?x < nat W" using c by simp
  have lx: "?x < length m" using x shape by (simp add: grid_shape_def)
  have ly: "?y < length (m ! ?x)" using c grid_shape_nth [OF shape x] by simp
  have w: "write_cell m (item_of fp W H j) = Some ?m'"
    using c lx ly by (simp add: write_cell_def item_of_def)
  have s: "grid_shape W H ?m'" by (rule grid_shape_update [OF shape x])
  have cells: "cell_at W ?m' i = (if i = j then pixel_at fp W H j else cell_at W m i)"
    if i: "0 \<le> i \<and> i < W * H" for i
  proof -
    have ci: "0 \<le> i mod W" "i mod W < W" "0 \<le> i div W" "i div W < H"
      using cell_coords [OF W, of i H] i by simp_all
    show ?thesis
    proof (cases "i = j")
      case True
      then show ?thesis using lx ly by (simp add: cell_at_def)
    next
      case False
      then have "i mod W \<noteq> j mod W \<or> i div W \<noteq> j div W"
        using index_inj [of i W j] by blast
      then have "nat (i mod W) \<noteq> ?x \<or> nat (i div W) \<noteq> ?y"
        using c(1,3) ci(1,3) by (simp add: eq_nat_nat_iff)
      then show ?thesis
        using False lx by (auto simp: cell_at_def nth_list_update)
    qed
  qed
  from w s cells show ?thesis by blast
qed

lemma grid_adv_refl: "grid_shape W H m \<Longrightarrow> grid_adv B fp W H m m"
  by (simp add: grid_adv_def)

lemma flushed_adv:
  assumes "grid_adv B fp W H m m'" "flushed B fp W H m b" "1 \<le> B" "0 \<le> b" "b < batches W H B"
  shows "flushed B fp W H m' b"
  unfolding flushed_def
proof (intro allI impI)
  fix p assume p: "0 \<le> p \<and> p < B"
  then have r: "0 \<le> b * B + p \<and> b * B + p < covered W H B"
    using batch_index_covered [of B b W H p] assms by simp
  then have "b * B + p < W * H" using covered_le [OF assms(3), of W H] by linarith
  with r assms(1) have "cell_at W m' (b * B + p) = cell_at W m (b * B + p) \<or>
      cell_at W m' (b * B + p) = pixel_at fp W H (b * B + p)"
    by (auto simp: grid_adv_def)
  moreover have "cell_at W m (b * B + p) = pixel_at fp W H (b * B + p)"
    using assms(2) p by (simp add: flushed_def)
  ultimately show "cell_at W m' (b * B + p) = pixel_at fp W H (b * B + p)" by auto
qed

lemma thread_ok_adv:
  assumes ok: "thread_ok B fp W H c m t" and c: "c \<le> c'" and adv: "grid_adv B fp W H m m'"
    and B: "1 \<le> B"
  shows "thread_ok B fp W H c' m' t"
proof -
  have cells: "cell_at W m' (batch_start t + p) = pixel_at fp W H (batch_start t + p)"
    if d: "loc t = AtDump" and p: "0 \<le> p \<and> p < dump_i t" for p
  proof -
    from ok d have di: "dump_i t \<le> lastPos (threadStack t)"
      and old: "cell_at W m (batch_start t + p) = pixel_at fp W H (batch_start t + p)"
      using p by (simp_all add: thread_ok_def)
    from di p d have h: "holding t" by (simp add: holding_def)
    with ok have b: "0 \<le> batch_start t" "batch_start t + B \<le> covered W H B"
      "lastPos (threadStack t) \<le> B"
      by (simp_all add: thread_ok_def)
    have "0 \<le> batch_start t + p \<and> batch_start t + p < W * H"
      using b p di covered_le [OF B, of W H] by linarith
    with adv have "cell_at W m' (batch_start t + p) = cell_at W m (batch_start t + p) \<or>
        cell_at W m' (batch_start t + p) = pixel_at fp W H (batch_start t + p)"
      by (auto simp: grid_adv_def)
    with old show ?thesis by auto
  qed
  have lt: "batch_start t < c' * B" if "holding t"
  proof -
    from ok that have "batch_start t < c * B" by (simp add: thread_ok_def)
    moreover have "c * B \<le> c' * B" using c B by (intro mult_right_mono) simp_all
    ultimately show ?thesis by linarith
  qed
  show ?thesis
    using ok c cells lt unfolding thread_ok_def by auto
qed

lemma sizes_facts:
  assumes "sizes_ok W H B n"
  shows "1 \<le> B" "1 \<le> W" "W < 2 ^ 31" "0 \<le> W * H" "W * H < 2 ^ 31" "B \<le> cBufferSize"
    "0 \<le> batches W H B" "0 \<le> covered W H B" "covered W H B \<le> W * H"
    "batches W H B + int n < 2 ^ 31"
proof -
  show B: "1 \<le> B" and "1 \<le> W" and "W < 2 ^ 31" and "W * H < 2 ^ 31" and "B \<le> cBufferSize"
    using assms by (simp_all add: sizes_ok_def)
  show A: "0 \<le> W * H" using assms by (simp add: sizes_ok_def)
  show nb: "0 \<le> batches W H B" using B A by (rule batches_nonneg)
  show "0 \<le> covered W H B" using nb B by (simp add: covered_def)
  show "covered W H B \<le> W * H" using B by (rule covered_le)
  show "batches W H B + int n < 2 ^ 31" using assms by (simp add: sizes_ok_def batches_def)
qed

lemma returned_count_nonneg: "0 \<le> returned_count ts"
  unfolding returned_count_def by (induction ts) simp_all

lemma sys_ok_update:
  assumes old: "sys_ok B fp W H n tr s"
    and sz: "sizes_ok W H B n"
    and k: "k < length (mThreads s)"
    and ts': "mThreads s' = (mThreads s)[k := t']"
    and W': "mWidthPixels s' = W" and H': "mHeightPixels s' = H"
    and c': "int (mMandelbrotIterator s) \<le> int (mMandelbrotIterator s')"
    and adv: "grid_adv B fp W H (map_grid (mResults s)) (map_grid (mResults s'))"
    and t': "thread_ok B fp W H (int (mMandelbrotIterator s')) (map_grid (mResults s')) t'"
    and cnt: "int (mMandelbrotIterator s') \<le> batches W H B \<or>
       int (mMandelbrotIterator s') + (if loc (mThreads s ! k) = Returned then 1 else 0)
         \<le> int (mMandelbrotIterator s) + (if loc t' = Returned then 1 else 0)"
    and bat: "\<forall>b. 0 \<le> b \<and> b < int (mMandelbrotIterator s') \<and> b < batches W H B \<longrightarrow>
       flushed B fp W H (map_grid (mResults s')) b \<or>
       (holding t' \<and> batch_start t' = b * B) \<or>
       (b < int (mMandelbrotIterator s) \<and>
        \<not> (holding (mThreads s ! k) \<and> batch_start (mThreads s ! k) = b * B))"
    and trc: "mset (map snd l) + pending B t' +
         mset_set {0 ..< min (int (mMandelbrotIterator s)) (batches W H B) * B} =
       pending B (mThreads s ! k) +
         mset_set {0 ..< min (int (mMandelbrotIterator s')) (batches W H B) * B}"
  shows "sys_ok B fp W H n (tr @ l) s'"
proof -
  let ?c = "int (mMandelbrotIterator s)" and ?c' = "int (mMandelbrotIterator s')"
  let ?m = "map_grid (mResults s)" and ?m' = "map_grid (mResults s')"
  let ?ts = "mThreads s" and ?t = "mThreads s ! k"
  note f = sizes_facts [OF sz]
  have len: "length (mThreads s') = n" using old ts' by (simp add: sys_ok_def)
  have shape: "grid_shape W H ?m'" using adv by (simp add: grid_adv_def)
  have rc: "returned_count (mThreads s') + (if loc ?t = Returned then 1 else 0) =
      returned_count ?ts + (if loc t' = Returned then 1 else 0)"
    unfolding returned_count_def ts' by (rule sum_list_map_update [OF k])
  have oldc: "?c \<le> batches W H B + returned_count ?ts" using old by (simp add: sys_ok_def)
  have count: "?c' \<le> batches W H B + returned_count (mThreads s')"
    using cnt rc oldc returned_count_nonneg [of "mThreads s'"] by (auto split: if_splits)
  have threads: "\<forall>t\<in>set (mThreads s'). thread_ok B fp W H ?c' ?m' t"
  proof
    fix u assume "u \<in> set (mThreads s')"
    then have "u = t' \<or> u \<in> set ?ts"
      unfolding ts' using set_update_subset_insert [of ?ts k t'] by auto
    then show "thread_ok B fp W H ?c' ?m' u"
    proof
      assume "u = t'" then show ?thesis using t' by simp
    next
      assume "u \<in> set ?ts"
      then have "thread_ok B fp W H ?c ?m u" using old by (simp add: sys_ok_def)
      then show ?thesis using c' adv f(1) by (rule thread_ok_adv)
    qed
  qed
  have zero: "\<forall>j. covered W H B \<le> j \<and> j < W * H \<longrightarrow> cell_at W ?m' j = 0"
  proof (intro allI impI)
    fix j assume j: "covered W H B \<le> j \<and> j < W * H"
    then have "0 \<le> j \<and> j < W * H" using f(8) by linarith
    then have "cell_at W ?m' j = cell_at W ?m j" using adv j by (auto simp: grid_adv_def)
    moreover have "cell_at W ?m j = 0" using old j by (simp add: sys_ok_def)
    ultimately show "cell_at W ?m' j = 0" by simp
  qed
  have batch: "\<forall>b. 0 \<le> b \<and> b < ?c' \<and> b < batches W H B \<longrightarrow>
        flushed B fp W H ?m' b \<or> (\<exists>t\<in>set (mThreads s'). holding t \<and> batch_start t = b * B)"
  proof (intro allI impI)
    fix b assume b: "0 \<le> b \<and> b < ?c' \<and> b < batches W H B"
    have t'in: "t' \<in> set (mThreads s')" unfolding ts' using k by (simp add: set_update_memI)
    from bat b consider "flushed B fp W H ?m' b" | "holding t' \<and> batch_start t' = b * B"
      | "b < ?c \<and> \<not> (holding ?t \<and> batch_start ?t = b * B)" by blast
    then show "flushed B fp W H ?m' b \<or>
        (\<exists>t\<in>set (mThreads s'). holding t \<and> batch_start t = b * B)"
    proof cases
      case 1 then show ?thesis by simp
    next
      case 2 then show ?thesis using t'in by blast
    next
      case 3
      then have "flushed B fp W H ?m b \<or> (\<exists>t\<in>set ?ts. holding t \<and> batch_start t = b * B)"
        using old b by (simp add: sys_ok_def)
      then show ?thesis
      proof
        assume "flushed B fp W H ?m b"
        then have "flushed B fp W H ?m' b"
          using adv f(1) b by (intro flushed_adv [of B fp W H ?m ?m' b]) simp_all
        then show ?thesis by simp
      next
        assume "\<exists>t\<in>set ?ts. holding t \<and> batch_start t = b * B"
        then obtain u where u: "u \<in> set ?ts" "holding u" "batch_start u = b * B" by blast
        with 3 have "u \<noteq> ?t" by auto
        then have "u \<in> set (mThreads s')" unfolding ts' using u(1) by (intro set_update_other)
        with u show ?thesis by blast
      qed
    qed
  qed
  have pend: "sum_list (map (pending B) (mThreads s')) + pending B ?t =
      sum_list (map (pending B) ?ts) + pending B t'"
    unfolding ts' by (rule sum_list_map_update [OF k])
  have oldtr: "mset (map snd tr) + sum_list (map (pending B) ?ts) =
      mset_set {0 ..< min ?c (batches W H B) * B}"
    using old by (simp add: sys_ok_def)
  have "(mset (map snd (tr @ l)) + sum_list (map (pending B) (mThreads s'))) +
      (pending B ?t + mset_set {0 ..< min ?c (batches W H B) * B}) =
      mset (map snd tr) + (sum_list (map (pending B) (mThreads s')) + pending B ?t) +
      (mset (map snd l) + mset_set {0 ..< min ?c (batches W H B) * B})"
    by (simp add: ac_simps)
  also have "\<dots> = (mset (map snd tr) + sum_list (map (pending B) ?ts)) +
      (mset (map snd l) + pending B t' + mset_set {0 ..< min ?c (batches W H B) * B})"
    unfolding pend by (simp add: ac_simps)
  also have "\<dots> = mset_set {0 ..< min ?c (batches W H B) * B} +
      (pending B ?t + mset_set {0 ..< min ?c' (batches W H B) * B})"
    unfolding oldtr trc ..
  also have "\<dots> = mset_set {0 ..< min ?c' (batches W H B) * B} +
      (pending B ?t + mset_set {0 ..< min ?c (batches W H B) * B})"
    by (simp add: ac_simps)
  finally have trace: "mset (map snd (tr @ l)) + sum_list (map (pending B) (mThreads s')) =
      mset_set {0 ..< min ?c' (batches W H B) * B}"
    by simp
  show ?thesis
    unfolding sys_ok_def
    using W' H' len shape count threads zero batch trace by blast
qed

lemma thread_of_sys_ok:
  "sys_ok B fp W H n tr s \<Longrightarrow> k < length (mThreads s) \<Longrightarrow>
   thread_ok B fp W H (int (mMandelbrotIterator s)) (map_grid (mResults s)) (mThreads s ! k)"
  by (simp add: sys_ok_def)

lemma step_Returned:
  assumes old: "sys_ok B fp W H n tr s"
    and k: "k < length (mThreads s)"
    and l: "loc (mThreads s ! k) = Returned \<or> loc (mThreads s ! k) = Crashed"
  shows "step B fp (k, sp) s = ([], s)"
  using k l by (auto simp: step_def loop_step_def)

lemma step_AtSpin:
  assumes old: "sys_ok B fp W H n tr s" and sz: "sizes_ok W H B n"
    and k: "k < length (mThreads s)"
    and l: "loc (mThreads s ! k) = AtSpin"
  shows "sys_ok B fp W H n (tr @ fst (step B fp (k, sp) s)) (snd (step B fp (k, sp) s)) \<and>
    (\<not> sp \<longrightarrow> steps_left B W H (snd (step B fp (k, sp) s)) k < steps_left B W H s k)"
proof -
  let ?t = "mThreads s ! k"
  note ok = thread_of_sys_ok [OF old k]
  have shape: "grid_shape W H (map_grid (mResults s))" and W: "mWidthPixels s = W"
    and H: "mHeightPixels s = H"
    using old by (simp_all add: sys_ok_def)
  show ?thesis
  proof (cases "mIsSavingResults s = dummy ?t \<and> \<not> sp")
    case True
    let ?t' = "?t\<lparr>dump_i := 0, loc := AtDump\<rparr>"
    let ?s' = "s\<lparr>mIsSavingResults := True, mThreads := (mThreads s)[k := ?t']\<rparr>"
    have st: "step B fp (k, sp) s = ([], ?s')"
      using k l True by (simp add: step_def loop_step_def)
    have bs: "batch_start ?t' = batch_start ?t" "holding ?t' = holding ?t"
      using l by (simp_all add: batch_start_def holding_def)
    have "sys_ok B fp W H n (tr @ []) ?s'"
    proof (rule sys_ok_update [OF old sz k])
      show "thread_ok B fp W H (int (mMandelbrotIterator ?s')) (map_grid (mResults ?s')) ?t'"
        using ok l unfolding thread_ok_def bs by auto
      show "grid_adv B fp W H (map_grid (mResults s)) (map_grid (mResults ?s'))"
        using shape by (simp add: grid_adv_refl)
    qed (use l W H bs in \<open>simp_all add: pending_def\<close>)
    moreover have "\<not> sp \<longrightarrow> steps_left B W H ?s' k < steps_left B W H s k"
      using k l True by (simp add: steps_left_def local_rank_def)
    ultimately show ?thesis unfolding st by simp
  next
    case False
    let ?t' = "?t\<lparr>dummy := mIsSavingResults s\<rparr>"
    let ?s' = "s\<lparr>mThreads := (mThreads s)[k := ?t']\<rparr>"
    have st: "step B fp (k, sp) s = ([], ?s')"
      using k l False by (auto simp add: step_def loop_step_def)
    have bs: "batch_start ?t' = batch_start ?t" "holding ?t' = holding ?t"
      using l by (simp_all add: batch_start_def holding_def)
    have "sys_ok B fp W H n (tr @ []) ?s'"
    proof (rule sys_ok_update [OF old sz k])
      show "thread_ok B fp W H (int (mMandelbrotIterator ?s')) (map_grid (mResults ?s')) ?t'"
        using ok l unfolding thread_ok_def bs by auto
      show "grid_adv B fp W H (map_grid (mResults s)) (map_grid (mResults ?s'))"
        using shape by (simp add: grid_adv_refl)
    qed (use l W H bs in \<open>simp_all add: pending_def\<close>)
    moreover have "\<not> sp \<longrightarrow> steps_left B W H ?s' k < steps_left B W H s k"
      using k l False by (auto simp: steps_left_def local_rank_def)
    ultimately show ?thesis unfolding st by simp
  qed
qed

lemma step_AtRelease:
  assumes old: "sys_ok B fp W H n tr s" and sz: "sizes_ok W H B n"
    and k: "k < length (mThreads s)"
    and l: "loc (mThreads s ! k) = AtRelease"
  shows "sys_ok B fp W H n (tr @ fst (step B fp (k, sp) s)) (snd (step B fp (k, sp) s)) \<and>
    (\<not> sp \<longrightarrow> steps_left B W H (snd (step B fp (k, sp) s)) k < steps_left B W H s k)"
proof -
  let ?t = "mThreads s ! k"
  note ok = thread_of_sys_ok [OF old k]
  have shape: "grid_shape W H (map_grid (mResults s))" and W: "mWidthPixels s = W"
    and H: "mHeightPixels s = H"
    using old by (simp_all add: sys_ok_def)
  let ?t' = "?t\<lparr>loc := AtClaim\<rparr>"
  let ?s' = "s\<lparr>mIsSavingResults := False, mThreads := (mThreads s)[k := ?t']\<rparr>"
  have st: "step B fp (k, sp) s = ([], ?s')"
    using k l by (simp add: step_def loop_step_def)
  have bs: "\<not> holding ?t'" "\<not> holding ?t"
    using l by (simp_all add: holding_def)
  have "sys_ok B fp W H n (tr @ []) ?s'"
  proof (rule sys_ok_update [OF old sz k])
    show "thread_ok B fp W H (int (mMandelbrotIterator ?s')) (map_grid (mResults ?s')) ?t'"
      using ok l bs unfolding thread_ok_def by auto
    show "grid_adv B fp W H (map_grid (mResults s)) (map_grid (mResults ?s'))"
      using shape by (simp add: grid_adv_refl)
  qed (use l W H bs in \<open>simp_all add: pending_def\<close>)
  moreover have "\<not> sp \<longrightarrow> steps_left B W H ?s' k < steps_left B W H s k"
    using k l by (simp add: steps_left_def local_rank_def)
  ultimately show ?thesis unfolding st by simp
qed

lemma compute_push_eq:
  assumes "0 \<le> currentIndex t" "currentIndex t < 2 ^ 31" "1 \<le> W" "W < 2 ^ 31"
    "0 \<le> lastPos (threadStack t)" "lastPos (threadStack t) < cBufferSize"
  shows "compute_push fp W H t =
    t\<lparr>threadStack := (threadStack t)\<lparr>
         arr := (arr (threadStack t))
           (nat (lastPos (threadStack t)) := item_of fp W H (currentIndex t)),
         lastPos := lastPos (threadStack t) + 1\<rparr>,
      loc := AtLoopTop\<rparr>"
  using assms
  by (simp add: compute_push_def positionFromIndex_eq push_def item_of_def pixel_at_def
      pixel_def Let_def)

lemma process_eq:
  assumes "0 \<le> currentIndex t" "currentIndex t < 2 ^ 31" "1 \<le> mWidthPixels s"
    "mWidthPixels s < 2 ^ 31"
    "0 \<le> lastPos (threadStack t)" "lastPos (threadStack t) < cBufferSize"
  shows "process fp s t =
    (Some (currentIndex t), s,
     t\<lparr>threadStack := (threadStack t)\<lparr>
         arr := (arr (threadStack t))
           (nat (lastPos (threadStack t)) :=
              item_of fp (mWidthPixels s) (mHeightPixels s) (currentIndex t)),
         lastPos := lastPos (threadStack t) + 1\<rparr>,
      loc := AtLoopTop\<rparr>)"
  using assms by (simp add: process_def compute_push_eq Let_def)

lemma interval_insert_first:
  "(a::int) < b \<Longrightarrow> mset_set {a ..< b} = {#a#} + mset_set {a + 1 ..< b}"
proof -
  assume ab: "a < b"
  then have "{a ..< b} = insert a {a + 1 ..< b}" by auto
  moreover have "a \<notin> {a + 1 ..< b}" by simp
  ultimately show ?thesis by simp
qed

lemma step_AtLoopTop:
  assumes old: "sys_ok B fp W H n tr s" and sz: "sizes_ok W H B n"
    and k: "k < length (mThreads s)"
    and l: "loc (mThreads s ! k) = AtLoopTop"
  shows "sys_ok B fp W H n (tr @ fst (step B fp (k, sp) s)) (snd (step B fp (k, sp) s)) \<and>
    (\<not> sp \<longrightarrow> steps_left B W H (snd (step B fp (k, sp) s)) k < steps_left B W H s k)"
proof -
  let ?t = "mThreads s ! k"
  let ?ci = "currentIndex ?t + 1"
  let ?lp = "lastPos (threadStack ?t)"
  note ok = thread_of_sys_ok [OF old k]
  note f = sizes_facts [OF sz]
  have shape: "grid_shape W H (map_grid (mResults s))" and W: "mWidthPixels s = W"
    and H: "mHeightPixels s = H"
    using old by (simp_all add: sys_ok_def)
  have lp0: "0 \<le> ?lp" using ok by (simp add: thread_ok_def)
  have bs: "batch_start ?t = ?ci - ?lp" using l by (simp add: batch_start_def)
  have boundary: "?ci smod B = 0 \<or> W * H \<le> ?ci" if "?lp = 0 \<or> ?lp = B"
  proof (cases "?lp = 0")
    case True
    with ok l have "currentIndex ?t = - 1" by (simp add: thread_ok_def)
    then show ?thesis by (simp add: signed_modulo_int_def)
  next
    case False
    with that lp0 have lpB: "?lp = B" and h: "holding ?t" using l by (simp_all add: holding_def)
    from ok h have "batch_start ?t mod B = 0" "0 \<le> batch_start ?t" by (simp_all add: thread_ok_def)
    then have "(?ci - B) mod B = 0" "0 \<le> ?ci - B" using bs lpB by simp_all
    then have "?ci mod B = 0" "0 \<le> ?ci" using f(1) by (simp_all add: mod_diff_right_eq [symmetric])
    then show ?thesis using f(1) by (simp add: smod_nonneg)
  qed
  show ?thesis
  proof (cases "?lp = 0 \<or> ?lp = B")
    case True
    let ?t' = "?t\<lparr>currentIndex := ?ci, dummy := False, loc := AtSpin\<rparr>"
    let ?s' = "s\<lparr>mThreads := (mThreads s)[k := ?t']\<rparr>"
    have st: "step B fp (k, sp) s = ([], ?s')"
      using k l boundary [OF True] W H by (simp add: step_def loop_step_def Let_def)
    have bs': "batch_start ?t' = batch_start ?t"
      using l by (simp add: batch_start_def)
    have h': "holding ?t' = holding ?t"
      using l by (simp add: holding_def)
    have pend: "pending B ?t = {#}"
    proof (cases "?lp = 0")
      case True then show ?thesis by (simp add: pending_def)
    next
      case False
      with True have "?lp = B" by simp
      then show ?thesis using bs by (simp add: pending_def)
    qed
    have "sys_ok B fp W H n (tr @ []) ?s'"
    proof (rule sys_ok_update [OF old sz k])
      show "thread_ok B fp W H (int (mMandelbrotIterator ?s')) (map_grid (mResults ?s')) ?t'"
        using ok l True unfolding thread_ok_def bs' h' by (auto simp: holding_def)
      show "grid_adv B fp W H (map_grid (mResults s)) (map_grid (mResults ?s'))"
        using shape by (simp add: grid_adv_refl)
    qed (use l W H bs' h' pend in \<open>simp_all add: pending_def\<close>)
    moreover have "\<not> sp \<longrightarrow> steps_left B W H ?s' k < steps_left B W H s k"
      using k l True f(1) lp0 by (auto simp: steps_left_def local_rank_def)
    ultimately show ?thesis unfolding st by simp
  next
    case False
    with lp0 have lp1: "0 < ?lp" and lpB: "?lp \<noteq> B" by simp_all
    then have h: "holding ?t" using l by (simp add: holding_def)
    from ok h have b: "batch_start ?t mod B = 0" "0 \<le> batch_start ?t"
      "batch_start ?t + B \<le> covered W H B" "batch_start ?t < int (mMandelbrotIterator s) * B"
      "?lp \<le> B"
      and items: "\<forall>p. 0 \<le> p \<and> p < ?lp \<longrightarrow>
           arr (threadStack ?t) (nat p) = item_of fp W H (batch_start ?t + p)"
      by (simp_all add: thread_ok_def)
    have lpB': "?lp < B" using b(5) lpB by simp
    have ci: "?ci = batch_start ?t + ?lp" using bs by simp
    have ci0: "0 \<le> ?ci" using ci b(2) lp0 by simp
    have ciA: "?ci < W * H" using ci b(3) lpB' f(9) by linarith
    have "?ci mod B = (batch_start ?t mod B + ?lp) mod B"
      unfolding ci by (simp add: mod_add_left_eq)
    also have "\<dots> = ?lp" using b(1) lp1 lpB' by simp
    finally have cimod: "?ci mod B \<noteq> 0" using lp1 by simp
    have nb: "\<not> (?ci smod B = 0 \<or> W * H \<le> ?ci)"
      using cimod ciA ci0 f(1) by (simp add: smod_nonneg)
    let ?t1 = "?t\<lparr>currentIndex := ?ci\<rparr>"
    let ?t' = "?t1\<lparr>threadStack := (threadStack ?t1)\<lparr>
         arr := (arr (threadStack ?t1))(nat ?lp := item_of fp W H ?ci),
         lastPos := ?lp + 1\<rparr>, loc := AtLoopTop\<rparr>"
    let ?s' = "s\<lparr>mThreads := (mThreads s)[k := ?t']\<rparr>"
    have pr: "process fp s ?t1 = (Some ?ci, s, ?t')"
      using process_eq [of ?t1 s fp] ci0 ciA f lp0 lpB' W H by simp
    have st: "step B fp (k, sp) s = ([(k, ?ci)], ?s')"
      using k l nb W H pr by (simp add: step_def loop_step_def Let_def)
    have bs': "batch_start ?t' = batch_start ?t"
      using l by (simp add: batch_start_def)
    have h': "holding ?t'" using lp0 by (simp add: holding_def)
    have items': "\<forall>p. 0 \<le> p \<and> p < ?lp + 1 \<longrightarrow>
           arr (threadStack ?t') (nat p) = item_of fp W H (batch_start ?t + p)"
    proof (intro allI impI)
      fix p assume p: "0 \<le> p \<and> p < ?lp + 1"
      show "arr (threadStack ?t') (nat p) = item_of fp W H (batch_start ?t + p)"
      proof (cases "p = ?lp")
        case True then show ?thesis using ci by simp
      next
        case False
        with p have "p < ?lp" "nat p \<noteq> nat ?lp" using lp0 by linarith+
        then show ?thesis using items p by simp
      qed
    qed
    have pend: "pending B ?t = {#?ci#} + pending B ?t'"
    proof -
      have "pending B ?t = mset_set {?ci ..< batch_start ?t + B}"
        using l lp1 by (simp add: pending_def)
      also have "\<dots> = {#?ci#} + mset_set {?ci + 1 ..< batch_start ?t + B}"
        using ci lpB' by (intro interval_insert_first) simp
      also have "mset_set {?ci + 1 ..< batch_start ?t + B} = pending B ?t'"
        using lp0 bs' by (simp add: pending_def)
      finally show ?thesis .
    qed
    have "sys_ok B fp W H n (tr @ [(k, ?ci)]) ?s'"
    proof (rule sys_ok_update [OF old sz k])
      show "thread_ok B fp W H (int (mMandelbrotIterator ?s')) (map_grid (mResults ?s')) ?t'"
        unfolding thread_ok_def bs'
        using h' b lpB' lp0 items' by simp
      show "grid_adv B fp W H (map_grid (mResults s)) (map_grid (mResults ?s'))"
        using shape by (simp add: grid_adv_refl)
      show "mset (map snd [(k, ?ci)]) + pending B ?t' +
         mset_set {0 ..< min (int (mMandelbrotIterator s)) (batches W H B) * B} =
       pending B (mThreads s ! k) +
         mset_set {0 ..< min (int (mMandelbrotIterator ?s')) (batches W H B) * B}"
        unfolding pend by simp
    qed (use l W H bs' h' in \<open>simp_all\<close>)
    moreover have "\<not> sp \<longrightarrow> steps_left B W H ?s' k < steps_left B W H s k"
      using k l lp0 by (simp add: steps_left_def local_rank_def)
    ultimately show ?thesis unfolding st by simp
  qed
qed

lemma returned_count_le: "returned_count ts \<le> int (length ts)"
  unfolding returned_count_def by (induction ts) simp_all

lemma interval_split:
  assumes "(a::int) \<le> b" "b \<le> c"
  shows "mset_set {a ..< c} = mset_set {a ..< b} + mset_set {b ..< c}"
proof -
  have "{a ..< c} = {a ..< b} \<union> {b ..< c}" using assms by auto
  moreover have "{a ..< b} \<inter> {b ..< c} = {}" by auto
  ultimately show ?thesis by (simp add: mset_set_Union)
qed

lemma step_AtDump:
  assumes old: "sys_ok B fp W H n tr s" and sz: "sizes_ok W H B n"
    and k: "k < length (mThreads s)"
    and l: "loc (mThreads s ! k) = AtDump"
  shows "sys_ok B fp W H n (tr @ fst (step B fp (k, sp) s)) (snd (step B fp (k, sp) s)) \<and>
    (\<not> sp \<longrightarrow> steps_left B W H (snd (step B fp (k, sp) s)) k < steps_left B W H s k)"
proof -
  let ?t = "mThreads s ! k"
  let ?lp = "lastPos (threadStack ?t)"
  let ?m = "map_grid (mResults s)"
  let ?b0 = "batch_start ?t"
  note ok = thread_of_sys_ok [OF old k]
  note f = sizes_facts [OF sz]
  have shape: "grid_shape W H ?m" and W: "mWidthPixels s = W" and H: "mHeightPixels s = H"
    using old by (simp_all add: sys_ok_def)
  from ok l have di: "0 \<le> dump_i ?t" "dump_i ?t \<le> ?lp"
    and cells: "\<forall>p. 0 \<le> p \<and> p < dump_i ?t \<longrightarrow> cell_at W ?m (?b0 + p) = pixel_at fp W H (?b0 + p)"
    by (simp_all add: thread_ok_def)
  show ?thesis
  proof (cases "dump_i ?t = ?lp")
    case True
    let ?t' = "?t\<lparr>threadStack := (threadStack ?t)\<lparr>lastPos := 0\<rparr>, loc := AtRelease\<rparr>"
    let ?s' = "s\<lparr>mThreads := (mThreads s)[k := ?t']\<rparr>"
    have st: "step B fp (k, sp) s = ([], ?s')"
      using k l True by (simp add: step_def loop_step_def)
    have h': "\<not> holding ?t'" by (simp add: holding_def)
    have fl: "flushed B fp W H ?m b" if "holding ?t" "?b0 = b * B" for b
    proof -
      from ok that(1) l have "?lp = B" by (simp add: thread_ok_def)
      with cells True that(2) show ?thesis by (simp add: flushed_def)
    qed
    have "sys_ok B fp W H n (tr @ []) ?s'"
    proof (rule sys_ok_update [OF old sz k])
      show "thread_ok B fp W H (int (mMandelbrotIterator ?s')) (map_grid (mResults ?s')) ?t'"
        using ok h' unfolding thread_ok_def by simp
      show "grid_adv B fp W H ?m (map_grid (mResults ?s'))"
        using shape by (simp add: grid_adv_refl)
      show "\<forall>b. 0 \<le> b \<and> b < int (mMandelbrotIterator ?s') \<and> b < batches W H B \<longrightarrow>
       flushed B fp W H (map_grid (mResults ?s')) b \<or>
       (holding ?t' \<and> batch_start ?t' = b * B) \<or>
       (b < int (mMandelbrotIterator s) \<and> \<not> (holding ?t \<and> ?b0 = b * B))"
        using fl by auto
    qed (use l W H in \<open>simp_all add: pending_def\<close>)
    moreover have "\<not> sp \<longrightarrow> steps_left B W H ?s' k < steps_left B W H s k"
      using k l True di by (simp add: steps_left_def local_rank_def)
    ultimately show ?thesis unfolding st by simp
  next
    case False
    with di have lt: "dump_i ?t < ?lp" by simp
    with di l have h: "holding ?t" by (simp add: holding_def)
    from ok h l have b: "?b0 mod B = 0" "0 \<le> ?b0" "?b0 + B \<le> covered W H B" "?lp = B"
      and items: "\<forall>p. 0 \<le> p \<and> p < ?lp \<longrightarrow>
           arr (threadStack ?t) (nat p) = item_of fp W H (?b0 + p)"
      by (simp_all add: thread_ok_def)
    let ?j = "?b0 + dump_i ?t"
    have j: "0 \<le> ?j" "?j < covered W H B" "?j < W * H"
      using b di lt f(9) by linarith+
    have e: "arr (threadStack ?t) (nat (dump_i ?t)) = item_of fp W H ?j"
      using items di lt by simp
    obtain m' where w: "write_cell ?m (item_of fp W H ?j) = Some m'"
      and shape': "grid_shape W H m'"
      and cells': "\<forall>i. 0 \<le> i \<and> i < W * H \<longrightarrow>
              cell_at W m' i = (if i = ?j then pixel_at fp W H ?j else cell_at W ?m i)"
      using write_item_of [OF shape f(2) j(1) j(3), of fp] by blast
    let ?t' = "?t\<lparr>dump_i := dump_i ?t + 1\<rparr>"
    let ?s' = "s\<lparr>mResults := (mResults s)\<lparr>map_grid := m'\<rparr>, mThreads := (mThreads s)[k := ?t']\<rparr>"
    have cap: "dump_i ?t < cBufferSize" using lt b(4) f(6) by linarith
    have st: "step B fp (k, sp) s = ([], ?s')"
      using k l False di cap e w by (simp add: step_def loop_step_def)
    have bs': "batch_start ?t' = ?b0" "holding ?t' = holding ?t"
      using l by (simp_all add: batch_start_def holding_def)
    have adv: "grid_adv B fp W H ?m m'"
      unfolding grid_adv_def using shape' cells' j by auto
    have newcells: "\<forall>p. 0 \<le> p \<and> p < dump_i ?t + 1 \<longrightarrow>
        cell_at W m' (?b0 + p) = pixel_at fp W H (?b0 + p)"
    proof (intro allI impI)
      fix p assume p: "0 \<le> p \<and> p < dump_i ?t + 1"
      then have r: "0 \<le> ?b0 + p \<and> ?b0 + p < W * H" using b lt f(9) by linarith
      show "cell_at W m' (?b0 + p) = pixel_at fp W H (?b0 + p)"
      proof (cases "p = dump_i ?t")
        case True then show ?thesis using cells' r by simp
      next
        case False
        with p have "p < dump_i ?t" by simp
        with p cells have "cell_at W ?m (?b0 + p) = pixel_at fp W H (?b0 + p)" by simp
        then show ?thesis using cells' r by auto
      qed
    qed
    have "sys_ok B fp W H n (tr @ []) ?s'"
    proof (rule sys_ok_update [OF old sz k])
      show "thread_ok B fp W H (int (mMandelbrotIterator ?s')) (map_grid (mResults ?s')) ?t'"
        using ok l lt di newcells unfolding thread_ok_def bs' by simp
      show "grid_adv B fp W H ?m (map_grid (mResults ?s'))"
        using adv by simp
    qed (use l W H bs' in \<open>simp_all add: pending_def\<close>)
    moreover have "\<not> sp \<longrightarrow> steps_left B W H ?s' k < steps_left B W H s k"
      using k l lt di by (simp add: steps_left_def local_rank_def)
    ultimately show ?thesis unfolding st by simp
  qed
qed

lemma step_AtClaim:
  assumes old: "sys_ok B fp W H n tr s" and sz: "sizes_ok W H B n"
    and k: "k < length (mThreads s)"
    and l: "loc (mThreads s ! k) = AtClaim"
  shows "sys_ok B fp W H n (tr @ fst (step B fp (k, sp) s)) (snd (step B fp (k, sp) s)) \<and>
    (\<not> sp \<longrightarrow> steps_left B W H (snd (step B fp (k, sp) s)) k < steps_left B W H s k)"
proof -
  let ?t = "mThreads s ! k"
  let ?c = "int (mMandelbrotIterator s)"
  let ?m = "map_grid (mResults s)"
  note ok = thread_of_sys_ok [OF old k]
  note f = sizes_facts [OF sz]
  have shape: "grid_shape W H ?m" and W: "mWidthPixels s = W" and H: "mHeightPixels s = H"
    and len: "length (mThreads s) = n"
    and cnt: "?c \<le> batches W H B + returned_count (mThreads s)"
    using old by (simp_all add: sys_ok_def)
  have lp: "lastPos (threadStack ?t) = 0" using ok l by (simp add: thread_ok_def)
  have nh: "\<not> holding ?t" using l by (simp add: holding_def)
  have c31: "?c < 2 ^ 31"
    using cnt returned_count_le [of "mThreads s"] len f(10) by linarith
  have cb: "s32 ?c = ?c" using c31 by (intro s32_id) simp_all
  have "mMandelbrotIterator s + 1 < 2 ^ 64" using c31 by simp
  then have c1: "(mMandelbrotIterator s + 1) mod 2 ^ 64 = mMandelbrotIterator s + 1"
    by simp
  have nbd: "(W * H) sdiv B = batches W H B"
    using f(1,4) by (simp add: sdiv_nonneg batches_def)
  have pt: "pending B ?t = {#}" using l by (simp add: pending_def)
  show ?thesis
  proof (cases "batches W H B \<le> ?c")
    case True
    let ?t' = "?t\<lparr>loc := Returned\<rparr>"
    let ?s' = "s\<lparr>mMandelbrotIterator := mMandelbrotIterator s + 1,
                 mThreads := (mThreads s)[k := ?t']\<rparr>"
    have st: "step B fp (k, sp) s = ([], ?s')"
      using k l True W H cb c1 nbd by (simp add: step_def loop_step_def Let_def)
    have h': "\<not> holding ?t'" by (simp add: holding_def)
    have mins: "min (?c + 1) (batches W H B) = min ?c (batches W H B)"
      using True by simp
    have "sys_ok B fp W H n (tr @ []) ?s'"
    proof (rule sys_ok_update [OF old sz k])
      show "thread_ok B fp W H (int (mMandelbrotIterator ?s')) (map_grid (mResults ?s')) ?t'"
        using ok True h' unfolding thread_ok_def by simp
      show "grid_adv B fp W H ?m (map_grid (mResults ?s'))"
        using shape by (simp add: grid_adv_refl)
      show "\<forall>b. 0 \<le> b \<and> b < int (mMandelbrotIterator ?s') \<and> b < batches W H B \<longrightarrow>
       flushed B fp W H (map_grid (mResults ?s')) b \<or>
       (holding ?t' \<and> batch_start ?t' = b * B) \<or>
       (b < ?c \<and> \<not> (holding ?t \<and> batch_start ?t = b * B))"
        using True nh by auto
      show "mset (map snd []) + pending B ?t' +
         mset_set {0 ..< min ?c (batches W H B) * B} =
       pending B ?t +
         mset_set {0 ..< min (int (mMandelbrotIterator ?s')) (batches W H B) * B}"
        using pt mins by (simp add: pending_def add.commute)
    qed (use l W H in \<open>simp_all\<close>)
    moreover have "\<not> sp \<longrightarrow> steps_left B W H ?s' k < steps_left B W H s k"
      using k l True f(1) by (simp add: steps_left_def local_rank_def)
    ultimately show ?thesis unfolding st by simp
  next
    case False
    then have lt: "?c < batches W H B" by simp
    let ?j = "?c * B"
    have "?c + 1 \<le> batches W H B" using lt by simp
    then have "(?c + 1) * B \<le> batches W H B * B"
      using f(1) by (intro mult_right_mono) simp_all
    then have jB: "?j + B \<le> covered W H B" by (simp add: covered_def algebra_simps)
    have j0: "0 \<le> ?j" using f(1) by simp
    have jA: "?j < 2 ^ 31" using jB f(1,5,9) by linarith
    let ?t1 = "?t\<lparr>currentIndex := ?j\<rparr>"
    let ?t' = "?t1\<lparr>threadStack := (threadStack ?t1)\<lparr>
         arr := (arr (threadStack ?t1))(nat 0 := item_of fp W H ?j),
         lastPos := 0 + 1\<rparr>, loc := AtLoopTop\<rparr>"
    let ?s1 = "s\<lparr>mMandelbrotIterator := mMandelbrotIterator s + 1\<rparr>"
    let ?s' = "s\<lparr>mMandelbrotIterator := mMandelbrotIterator s + 1,
                 mThreads := (mThreads s)[k := ?t']\<rparr>"
    have "0 < cBufferSize" by (simp add: cBufferSize_def)
    then have pr: "process fp ?s1 ?t1 = (Some ?j, ?s1, ?t')"
      using process_eq [of ?t1 ?s1 fp] j0 jA f lp W H by simp
    have st: "step B fp (k, sp) s = ([(k, ?j)], ?s')"
      using k l lt W H cb c1 nbd pr by (simp add: step_def loop_step_def Let_def)
    have bs': "batch_start ?t' = ?j" by (simp add: batch_start_def)
    have h': "holding ?t'" by (simp add: holding_def)
    have items': "\<forall>p. 0 \<le> p \<and> p < 1 \<longrightarrow>
        item_of fp W H (B * ?c) = item_of fp W H (p + B * ?c)"
    proof (intro allI impI)
      fix p :: int assume "0 \<le> p \<and> p < 1"
      then have "p = 0" by simp
      then show "item_of fp W H (B * ?c) = item_of fp W H (p + B * ?c)" by simp
    qed
    have mins: "min (?c + 1) (batches W H B) = ?c + 1" "min ?c (batches W H B) = ?c"
      using lt by simp_all
    have pend: "mset_set {0 ..< (?c + 1) * B} =
        mset_set {0 ..< ?j} + ({#?j#} + pending B ?t')"
    proof -
      have "mset_set {0 ..< (?c + 1) * B} = mset_set {0 ..< ?j} + mset_set {?j ..< ?j + B}"
        using interval_split [of 0 ?j "?j + B"] j0 f(1) by (simp add: algebra_simps)
      also have "mset_set {?j ..< ?j + B} = {#?j#} + mset_set {?j + 1 ..< ?j + B}"
        using f(1) by (intro interval_insert_first) simp
      also have "mset_set {?j + 1 ..< ?j + B} = pending B ?t'"
        using bs' by (simp add: pending_def)
      finally show ?thesis .
    qed
    have "sys_ok B fp W H n (tr @ [(k, ?j)]) ?s'"
    proof (rule sys_ok_update [OF old sz k])
      show "thread_ok B fp W H (int (mMandelbrotIterator ?s')) (map_grid (mResults ?s')) ?t'"
        unfolding thread_ok_def bs'
        using h' jB j0 f(1) items' by (simp add: algebra_simps)
      show "grid_adv B fp W H ?m (map_grid (mResults ?s'))"
        using shape by (simp add: grid_adv_refl)
      show "\<forall>b. 0 \<le> b \<and> b < int (mMandelbrotIterator ?s') \<and> b < batches W H B \<longrightarrow>
       flushed B fp W H (map_grid (mResults ?s')) b \<or>
       (holding ?t' \<and> batch_start ?t' = b * B) \<or>
       (b < ?c \<and> \<not> (holding ?t \<and> batch_start ?t = b * B))"
        using nh h' bs' by auto
      show "mset (map snd [(k, ?j)]) + pending B ?t' +
         mset_set {0 ..< min ?c (batches W H B) * B} =
       pending B ?t +
         mset_set {0 ..< min (int (mMandelbrotIterator ?s')) (batches W H B) * B}"
        using pt mins pend by (simp add: ac_simps)
      show "int (mMandelbrotIterator ?s') \<le> batches W H B \<or>
       int (mMandelbrotIterator ?s') + (if loc ?t = Returned then 1 else 0)
         \<le> ?c + (if loc ?t' = Returned then 1 else 0)"
        using lt by simp
    qed (use l W H in \<open>simp_all\<close>)
    moreover have "\<not> sp \<longrightarrow> steps_left B W H ?s' k < steps_left B W H s k"
      using k l lt f(1) lp by (simp add: steps_left_def local_rank_def algebra_simps)
    ultimately show ?thesis unfolding st by simp
  qed
qed

lemma sys_ok_step:
  assumes old: "sys_ok B fp W H n tr s" and sz: "sizes_ok W H B n"
  shows "sys_ok B fp W H n (tr @ fst (step B fp e s)) (snd (step B fp e s))"
proof (cases "fst e < length (mThreads s)")
  case False
  then show ?thesis using old by (simp add: step_def)
next
  case True
  obtain k sp where e: "e = (k, sp)" by (cases e)
  with True have k: "k < length (mThreads s)" by simp
  show ?thesis
  proof (cases "loc (mThreads s ! k)")
    case AtLoopTop
    then show ?thesis unfolding e by (rule step_AtLoopTop [OF old sz k, THEN conjunct1])
  next
    case AtSpin
    then show ?thesis unfolding e by (rule step_AtSpin [OF old sz k, THEN conjunct1])
  next
    case AtDump
    then show ?thesis unfolding e by (rule step_AtDump [OF old sz k, THEN conjunct1])
  next
    case AtRelease
    then show ?thesis unfolding e by (rule step_AtRelease [OF old sz k, THEN conjunct1])
  next
    case AtClaim
    then show ?thesis unfolding e by (rule step_AtClaim [OF old sz k, THEN conjunct1])
  next
    case Returned
    then have "step B fp (k, sp) s = ([], s)" by (intro step_Returned [OF old k]) simp
    then show ?thesis using old by (simp add: e)
  next
    case Crashed
    then have "step B fp (k, sp) s = ([], s)" by (intro step_Returned [OF old k]) simp
    then show ?thesis using old by (simp add: e)
  qed
qed

lemma sys_ok_exec:
  assumes sz: "sizes_ok W H B n"
  shows "sys_ok B fp W H n tr s \<Longrightarrow>
    sys_ok B fp W H n (tr @ fst (exec B fp sched s)) (snd (exec B fp sched s))"
proof (induction sched arbitrary: tr s)
  case Nil
  then show ?case by simp
next
  case (Cons e es)
  let ?l = "fst (step B fp e s)" and ?s' = "snd (step B fp e s)"
  have "sys_ok B fp W H n (tr @ ?l) ?s'"
    using Cons.prems sz by (rule sys_ok_step)
  then have "sys_ok B fp W H n ((tr @ ?l) @ fst (exec B fp es ?s')) (snd (exec B fp es ?s'))"
    by (rule Cons.IH)
  then show ?case
    by (simp add: case_prod_beta)
qed

text \<open>The fields the loop never writes.\<close>

lemma loop_step_frame:
  "mIsStarted (fst (snd (loop_step B fp sp s t))) = mIsStarted s \<and>
   mThreads (fst (snd (loop_step B fp sp s t))) = mThreads s \<and>
   joinable (snd (snd (loop_step B fp sp s t))) = joinable t"
  by (cases "loc t")
    (simp_all add: loop_step_def process_def compute_push_def Let_def split: option.splits)

lemma step_frame:
  "mIsStarted (snd (step B fp e s)) = mIsStarted s \<and>
   map joinable (mThreads (snd (step B fp e s))) = map joinable (mThreads s)"
proof (cases "fst e < length (mThreads s)")
  case False
  then show ?thesis by (simp add: step_def)
next
  case True
  let ?r = "loop_step B fp (snd e) s (mThreads s ! fst e)"
  note fr = loop_step_frame [of B fp "snd e" s "mThreads s ! fst e"]
  have "snd (step B fp e s) = (fst (snd ?r))\<lparr>mThreads := (mThreads (fst (snd ?r)))[fst e := snd (snd ?r)]\<rparr>"
    using True by (simp add: step_def case_prod_beta)
  then show ?thesis
    using fr True by (simp add: map_update list_update_same_conv)
qed

lemma exec_frame:
  "mIsStarted (snd (exec B fp sched s)) = mIsStarted s \<and>
   map joinable (mThreads (snd (exec B fp sched s))) = map joinable (mThreads s)"
proof (induction sched arbitrary: s)
  case Nil
  then show ?case by simp
next
  case (Cons e es)
  show ?case
    using Cons.IH [of "snd (step B fp e s)"] step_frame [of B fp e s]
    by (simp add: case_prod_beta)
qed

lemma sum_list_replicate_empty:
  "sum_list (replicate n (pending B new_thread)) = {#}"
  by (induction n) (simp_all add: pending_def new_thread_def)

lemma returned_count_replicate: "returned_count (replicate n new_thread) = 0"
  unfolding returned_count_def by (induction n) (simp_all add: new_thread_def)

lemma thread_ok_new: "thread_ok B fp W H 0 m new_thread"
  by (simp add: thread_ok_def new_thread_def holding_def)

lemma cell_at_zeros:
  assumes "1 \<le> W" "0 \<le> j" "j < W * H"
  shows "cell_at W (replicate (nat W) (replicate (nat H) 0)) j = 0"
proof -
  have "0 \<le> j mod W \<and> j mod W < W \<and> 0 \<le> j div W \<and> j div W < H"
    using assms by (rule cell_coords)
  then show ?thesis by (simp add: cell_at_def)
qed

lemma sys_ok_started:
  assumes sz: "sizes_ok W H B n"
    and new: "new_LockfreeMandelbrot W H saving0 iterator0 = Some s0"
    and start: "startThreads (int n) s0 = Some (started, s1)"
  shows "started \<and> sys_ok B fp W H n [] s1 \<and> mIsStarted s1 \<and>
         (\<forall>t\<in>set (mThreads s1). joinable t)"
proof -
  note f = sizes_facts [OF sz]
  have s0: "s0 = \<lparr> mThreads = [], mMandelbrotIterator = iterator0, mIsSavingResults = saving0,
      mResults = \<lparr> map_grid = replicate (nat W) (replicate (nat H) 0), width = W, height = H \<rparr>,
      mIsStarted = False, mWidthPixels = W, mHeightPixels = H \<rparr>"
    using new by (auto simp: new_LockfreeMandelbrot_def new_MandelbrotBitmap_def
        split: option.splits if_splits)
  have s1: "started" "s1 = s0\<lparr>mMandelbrotIterator := 0, mIsStarted := True,
      mThreads := replicate n new_thread\<rparr>"
    using start unfolding s0 by (auto simp: startThreads_def)
  have zero: "\<forall>j. covered W H B \<le> j \<and> j < W * H \<longrightarrow>
      cell_at W (replicate (nat W) (replicate (nat H) 0)) j = 0"
    using f(2,8) by (auto intro!: cell_at_zeros)
  have ok: "sys_ok B fp W H n [] s1"
    unfolding sys_ok_def s1 s0
    using f(7) zero
    by (auto simp: grid_shape_def returned_count_replicate sum_list_replicate_empty
        thread_ok_new)
  have j: "\<forall>t\<in>set (mThreads s1). joinable t"
    unfolding s1 s0 by (simp add: new_thread_def)
  from s1 ok j show ?thesis by simp
qed

lemma complete_run_sys_ok:
  assumes sz: "sizes_ok W H B n"
    and run: "complete_run W H saving0 iterator0 (int n) B fp sched = Some (tr, s)"
  shows "\<exists>s2. sys_ok B fp W H n tr s2 \<and> mResults s = mResults s2 \<and>
           (\<forall>t\<in>set (mThreads s2). loc t = Returned)"
proof -
  from run obtain s0 started s1 joined
    where new: "new_LockfreeMandelbrot W H saving0 iterator0 = Some s0"
      and start: "startThreads (int n) s0 = Some (started, s1)"
      and ex: "fst (exec B fp sched s1) = tr"
      and wait: "waitToFinish (snd (exec B fp sched s1)) = Some (joined, s)"
    by (auto simp: complete_run_def run_threads_def case_prod_beta
        split: option.splits if_splits)
  let ?s2 = "snd (exec B fp sched s1)"
  note st = sys_ok_started [OF sz new start, of fp]
  have ok: "sys_ok B fp W H n tr ?s2"
    using sys_ok_exec [OF sz, of fp "[]" s1 sched] st ex by simp
  have fr: "mIsStarted ?s2" "map joinable (mThreads ?s2) = map joinable (mThreads s1)"
    using exec_frame [of B fp sched s1] st by simp_all
  have jn: "joinable (mThreads ?s2 ! i)" if "i < length (mThreads ?s2)" for i
  proof -
    have "joinable (mThreads ?s2 ! i) = map joinable (mThreads ?s2) ! i" using that by simp
    also have "\<dots> = map joinable (mThreads s1) ! i" using fr(2) by simp
    also have "\<dots> = joinable (mThreads s1 ! i)"
      using that fr(2) by (metis length_map nth_map)
    finally show ?thesis
      using st that fr(2) by (metis length_map nth_mem)
  qed
  have all: "filter (\<lambda>k. joinable (mThreads ?s2 ! k)) [0..<length (mThreads ?s2)] =
      [0..<length (mThreads ?s2)]"
    using jn by (simp add: filter_id_conv)
  from wait fr(1) have ret: "list_all (\<lambda>k. loc (mThreads ?s2 ! k) = Returned) [0..<length (mThreads ?s2)]"
    and s: "mResults s = mResults ?s2"
    unfolding waitToFinish_def Let_def using all by (auto split: if_splits)
  have "\<forall>t\<in>set (mThreads ?s2). loc t = Returned"
    using ret by (auto simp: list_all_iff in_set_conv_nth)
  with ok s show ?thesis by blast
qed

lemma sum_list_pending_returned:
  "\<forall>t\<in>set ts. loc t = Returned \<Longrightarrow> sum_list (map (pending B) ts) = {#}"
  by (induction ts) (simp_all add: pending_def)

lemma div_less_batches:
  assumes "1 \<le> B" "j < batches W H B * B"
  shows "j div B < batches W H B"
  using div_less_rows [of B j "batches W H B"] assms by (simp add: mult.commute)

lemma complete_run_cells:
  assumes sz: "sizes_ok W H B n" and n: "1 \<le> n"
    and run: "complete_run W H saving0 iterator0 (int n) B fp sched = Some (tr, s)"
  shows "grid_shape W H (map_grid (mResults s))"
    and "\<forall>j. 0 \<le> j \<and> j < W * H \<longrightarrow>
           cell_at W (map_grid (mResults s)) j =
             (if j < covered W H B then pixel_at fp W H j else 0)"
    and "mset (map snd tr) = mset_set {0 ..< covered W H B}"
proof -
  note f = sizes_facts [OF sz]
  from complete_run_sys_ok [OF sz run] obtain s2
    where ok: "sys_ok B fp W H n tr s2" and res: "mResults s = mResults s2"
      and ret: "\<forall>t\<in>set (mThreads s2). loc t = Returned"
    by blast
  let ?c = "int (mMandelbrotIterator s2)" and ?m = "map_grid (mResults s2)"
  have len: "length (mThreads s2) = n" using ok by (simp add: sys_ok_def)
  with n have "mThreads s2 ! 0 \<in> set (mThreads s2)" by simp
  then have "loc (mThreads s2 ! 0) = Returned"
    and "thread_ok B fp W H ?c ?m (mThreads s2 ! 0)"
    using ret ok by (simp_all add: sys_ok_def)
  then have c: "batches W H B < ?c" by (simp add: thread_ok_def)
  show "grid_shape W H (map_grid (mResults s))"
    using ok res by (simp add: sys_ok_def)
  have nohold: "\<not> (\<exists>t\<in>set (mThreads s2). holding t \<and> batch_start t = b * B)" for b
    using ret by (auto simp: holding_def)
  have fl: "flushed B fp W H ?m b" if "0 \<le> b" "b < batches W H B" for b
  proof -
    have "flushed B fp W H ?m b \<or> (\<exists>t\<in>set (mThreads s2). holding t \<and> batch_start t = b * B)"
      using ok that c by (simp add: sys_ok_def)
    with nohold show ?thesis by blast
  qed
  show "\<forall>j. 0 \<le> j \<and> j < W * H \<longrightarrow>
           cell_at W (map_grid (mResults s)) j =
             (if j < covered W H B then pixel_at fp W H j else 0)"
  proof (intro allI impI)
    fix j assume j: "0 \<le> j \<and> j < W * H"
    show "cell_at W (map_grid (mResults s)) j =
             (if j < covered W H B then pixel_at fp W H j else 0)"
    proof (cases "j < covered W H B")
      case True
      let ?b = "j div B" and ?p = "j mod B"
      have b: "0 \<le> ?b" "?b < batches W H B"
        using j f(1) True div_less_batches [of B j W H]
        by (simp_all add: covered_def pos_imp_zdiv_nonneg_iff)
      have p: "0 \<le> ?p \<and> ?p < B" using f(1) by simp
      have "cell_at W ?m (?b * B + ?p) = pixel_at fp W H (?b * B + ?p)"
        using fl [OF b] p unfolding flushed_def by blast
      then show ?thesis using True res by simp
    next
      case False
      then have "cell_at W ?m j = 0" using ok j by (simp add: sys_ok_def)
      then show ?thesis using False res by simp
    qed
  qed
  have "mset (map snd tr) + sum_list (map (pending B) (mThreads s2)) =
       mset_set {0 ..< min ?c (batches W H B) * B}"
    using ok by (simp add: sys_ok_def)
  moreover have "min ?c (batches W H B) = batches W H B" using c by simp
  ultimately show "mset (map snd tr) = mset_set {0 ..< covered W H B}"
    using sum_list_pending_returned [OF ret, of B] by (simp add: covered_def)
qed

section \<open>Every thread returns\<close>

lemma steps_left_nonneg:
  assumes old: "sys_ok B fp W H n tr s" and sz: "sizes_ok W H B n"
    and k: "k < length (mThreads s)"
  shows "0 \<le> steps_left B W H s k"
proof -
  let ?t = "mThreads s ! k"
  note ok = thread_of_sys_ok [OF old k]
  note f = sizes_facts [OF sz]
  have lp0: "0 \<le> lastPos (threadStack ?t)" using ok by (simp add: thread_ok_def)
  have lpB: "lastPos (threadStack ?t) \<le> B" if "loc ?t = AtLoopTop"
  proof (cases "lastPos (threadStack ?t) = 0")
    case True then show ?thesis using f(1) by simp
  next
    case False
    with lp0 that have "holding ?t" by (simp add: holding_def)
    with ok show ?thesis by (simp add: thread_ok_def)
  qed
  have di: "dump_i ?t \<le> lastPos (threadStack ?t)" if "loc ?t = AtDump"
    using ok that by (simp add: thread_ok_def)
  have "0 \<le> local_rank B (mIsSavingResults s) ?t"
    using lp0 lpB di f(1) by (cases "loc ?t") (simp_all add: local_rank_def)
  moreover have "0 \<le> max 0 (batches W H B - int (mMandelbrotIterator s)) * (2 * B + 6)"
    using f(1) by simp
  ultimately show ?thesis by (simp add: steps_left_def)
qed

lemma step_progress:
  assumes old: "sys_ok B fp W H n tr s" and sz: "sizes_ok W H B n"
    and k: "k < length (mThreads s)" and nr: "loc (mThreads s ! k) \<noteq> Returned"
  shows "steps_left B W H (snd (step B fp (k, False) s)) k < steps_left B W H s k"
proof (cases "loc (mThreads s ! k)")
  case AtLoopTop
  then show ?thesis using step_AtLoopTop [OF old sz k, of False] by simp
next
  case AtSpin
  then show ?thesis using step_AtSpin [OF old sz k, of False] by simp
next
  case AtDump
  then show ?thesis using step_AtDump [OF old sz k, of False] by simp
next
  case AtRelease
  then show ?thesis using step_AtRelease [OF old sz k, of False] by simp
next
  case AtClaim
  then show ?thesis using step_AtClaim [OF old sz k, of False] by simp
next
  case Returned
  with nr show ?thesis by simp
next
  case Crashed
  then show ?thesis using thread_of_sys_ok [OF old k] by (simp add: thread_ok_def)
qed

lemma step_threads:
  "length (mThreads (snd (step B fp e s))) = length (mThreads s) \<and>
   (\<forall>j. j \<noteq> fst e \<longrightarrow> mThreads (snd (step B fp e s)) ! j = mThreads s ! j)"
proof (cases "fst e < length (mThreads s)")
  case False
  then show ?thesis by (simp add: step_def)
next
  case True
  let ?r = "loop_step B fp (snd e) s (mThreads s ! fst e)"
  note fr = loop_step_frame [of B fp "snd e" s "mThreads s ! fst e"]
  have "snd (step B fp e s) =
      (fst (snd ?r))\<lparr>mThreads := (mThreads (fst (snd ?r)))[fst e := snd (snd ?r)]\<rparr>"
    using True by (simp add: step_def case_prod_beta)
  then show ?thesis using fr by simp
qed

lemma exec_solo_threads:
  "length (mThreads (snd (exec B fp (replicate m (k, sp)) s))) = length (mThreads s) \<and>
   (\<forall>j. j \<noteq> k \<longrightarrow> mThreads (snd (exec B fp (replicate m (k, sp)) s)) ! j = mThreads s ! j)"
proof (induction m arbitrary: s)
  case 0
  then show ?case by simp
next
  case (Suc m)
  show ?case
    using Suc.IH [of "snd (step B fp (k, sp) s)"] step_threads [of B fp "(k, sp)" s]
    by (simp add: case_prod_beta)
qed

lemma exec_append:
  "exec B fp (a @ b) s =
     (fst (exec B fp a s) @ fst (exec B fp b (snd (exec B fp a s))),
      snd (exec B fp b (snd (exec B fp a s))))"
  by (induction a arbitrary: s) (simp_all add: case_prod_beta)

lemma thread_returns:
  assumes sz: "sizes_ok W H B n"
  shows "sys_ok B fp W H n tr s \<Longrightarrow> k < n \<Longrightarrow> nat (steps_left B W H s k) = d \<Longrightarrow>
    \<exists>m. loc (mThreads (snd (exec B fp (replicate m (k, False)) s)) ! k) = Returned"
proof (induction d arbitrary: tr s rule: less_induct)
  case (less d)
  have k: "k < length (mThreads s)" using less.prems by (simp add: sys_ok_def)
  show ?case
  proof (cases "loc (mThreads s ! k) = Returned")
    case True
    then have "loc (mThreads (snd (exec B fp (replicate 0 (k, False)) s)) ! k) = Returned"
      by simp
    then show ?thesis by blast
  next
    case False
    let ?s' = "snd (step B fp (k, False) s)" and ?l = "fst (step B fp (k, False) s)"
    have ok': "sys_ok B fp W H n (tr @ ?l) ?s'"
      using less.prems(1) sz by (rule sys_ok_step)
    have k': "k < length (mThreads ?s')" using ok' less.prems(2) by (simp add: sys_ok_def)
    have dec: "steps_left B W H ?s' k < steps_left B W H s k"
      using less.prems(1) sz k False by (rule step_progress)
    have nn: "0 \<le> steps_left B W H ?s' k"
      using ok' sz k' by (rule steps_left_nonneg)
    have "nat (steps_left B W H ?s' k) < d"
      using dec nn less.prems(3) by linarith
    then obtain m where
      "loc (mThreads (snd (exec B fp (replicate m (k, False)) ?s')) ! k) = Returned"
      using less.IH [OF _ ok' less.prems(2) refl] by blast
    then have "loc (mThreads (snd (exec B fp (replicate (Suc m) (k, False)) s)) ! k) = Returned"
      by (simp add: case_prod_beta)
    then show ?thesis by blast
  qed
qed

lemma threads_return:
  assumes sz: "sizes_ok W H B n" and ok: "sys_ok B fp W H n [] s"
  shows "j \<le> n \<Longrightarrow>
    \<exists>sched. \<forall>i<j. loc (mThreads (snd (exec B fp sched s)) ! i) = Returned"
proof (induction j)
  case 0
  then show ?case by simp
next
  case (Suc j)
  then obtain sched where
    prev: "\<forall>i<j. loc (mThreads (snd (exec B fp sched s)) ! i) = Returned"
    by auto
  let ?s1 = "snd (exec B fp sched s)"
  have ok1: "sys_ok B fp W H n ([] @ fst (exec B fp sched s)) ?s1"
    using sz ok by (rule sys_ok_exec)
  have j: "j < n" using Suc.prems by simp
  obtain m where m: "loc (mThreads (snd (exec B fp (replicate m (j, False)) ?s1)) ! j) = Returned"
    using thread_returns [OF sz ok1 j refl] by blast
  let ?s2 = "snd (exec B fp (replicate m (j, False)) ?s1)"
  have s2: "snd (exec B fp (sched @ replicate m (j, False)) s) = ?s2"
    by (simp add: exec_append)
  have "\<forall>i<Suc j. loc (mThreads ?s2 ! i) = Returned"
  proof (intro allI impI)
    fix i assume i: "i < Suc j"
    show "loc (mThreads ?s2 ! i) = Returned"
    proof (cases "i = j")
      case True then show ?thesis using m by simp
    next
      case False
      with i have "i < j" by simp
      moreover have "mThreads ?s2 ! i = mThreads ?s1 ! i"
        using exec_solo_threads [of B fp m j False ?s1] False by simp
      ultimately show ?thesis using prev by simp
    qed
  qed
  then show ?case using s2 by metis
qed

text \<open>
  Every run can be completed: for sizes within \<open>sizes_ok\<close> there is a schedule after
  which \<open>waitToFinish\<close> returns (the threads run to their return one after the other).
\<close>

lemma complete_run_exists:
  assumes sz: "sizes_ok W H B n"
  shows "\<exists>sched tr s. complete_run W H saving0 iterator0 (int n) B fp sched = Some (tr, s)"
proof -
  note f = sizes_facts [OF sz]
  have H0: "0 \<le> H" using sz by (simp add: sizes_ok_def)
  obtain s0 where new: "new_LockfreeMandelbrot W H saving0 iterator0 = Some s0"
    using f(2) H0 by (simp add: new_LockfreeMandelbrot_def new_MandelbrotBitmap_def)
  have st0: "mIsStarted s0 = False" using new
    by (auto simp: new_LockfreeMandelbrot_def new_MandelbrotBitmap_def split: if_splits)
  obtain s1 where start: "startThreads (int n) s0 = Some (True, s1)"
    using st0 by (simp add: startThreads_def)
  note st = sys_ok_started [OF sz new start, of fp]
  then have ok: "sys_ok B fp W H n [] s1" by simp
  obtain sched where ret: "\<forall>i<n. loc (mThreads (snd (exec B fp sched s1)) ! i) = Returned"
    using threads_return [OF sz ok, of n] by blast
  let ?s2 = "snd (exec B fp sched s1)"
  have ok2: "sys_ok B fp W H n ([] @ fst (exec B fp sched s1)) ?s2"
    using sz ok by (rule sys_ok_exec)
  then have len: "length (mThreads ?s2) = n" by (simp add: sys_ok_def)
  have started: "mIsStarted ?s2" using exec_frame [of B fp sched s1] st by simp
  have "list_all (\<lambda>k. loc (mThreads ?s2 ! k) = Returned)
      (filter (\<lambda>k. joinable (mThreads ?s2 ! k)) [0..<length (mThreads ?s2)])"
    using ret len by (simp add: list_all_iff)
  then obtain joined s3 where "waitToFinish ?s2 = Some (joined, s3)"
    using started by (simp add: waitToFinish_def Let_def)
  then have "complete_run W H saving0 iterator0 (int n) B fp sched =
      Some (fst (exec B fp sched s1), s3)"
    using new start by (simp add: complete_run_def run_threads_def case_prod_beta)
  then show ?thesis by blast
qed

section \<open>Complete runs\<close>

lemma replicate_num: "replicate (numeral k) x = x # replicate (pred_numeral k) x"
  by (simp add: numeral_eq_Suc)

lemmas run_simps = complete_run_def run_threads_def new_LockfreeMandelbrot_def
  new_MandelbrotBitmap_def startThreads_def waitToFinish_def new_thread_def
  step_def loop_step_def process_def compute_push_def positionFromIndex_def
  u64_def s32_def u32_def push_def write_cell_def scaleX_def scaleY_def render_def
  exact_ops_def cMaxIterations_def cBufferSize_def Let_def
  signed_modulo_int_def signed_divide_int_def replicate_num

lemma pixel_5_1:
  "pixel exact_ops 5 1 0 0 = 0" "pixel exact_ops 5 1 1 0 = 1" "pixel exact_ops 5 1 2 0 = 2"
  "pixel exact_ops 5 1 3 0 = 2" "pixel exact_ops 5 1 4 0 = 3"
  by (simp_all add: pixel_def scaleX_def scaleY_def render_def u32_def render_loop.simps
      exact_ops_def cMaxIterations_def Let_def)

lemma pixel_main_tail: "pixel exact_ops cWidthPixels cHeightPixels 110 117 = 3"
  by (simp add: pixel_def scaleX_def scaleY_def render_def u32_def render_loop.simps
      exact_ops_def cMaxIterations_def Let_def cWidthPixels_def cHeightPixels_def)

lemma run_solo:
  "map_option (\<lambda>r. (fst r, map_grid (mResults (snd r))))
     (complete_run 5 1 False 0 1 2 exact_ops solo_schedule) =
   Some ([(0, 0), (0, 1), (0, 2), (0, 3)], [[0], [1], [2], [2], [0]])"
  by (simp add: run_simps render_loop.simps solo_schedule_def)

lemma run_duo:
  "map_option (\<lambda>r. (fst r, map_grid (mResults (snd r))))
     (complete_run 5 1 True 7 2 2 exact_ops duo_schedule) =
   Some ([(0, 0), (0, 1), (1, 2), (1, 3)], [[0], [1], [2], [2], [0]])"
  by (simp add: run_simps render_loop.simps duo_schedule_def)

lemma run_whole:
  "map_option (\<lambda>r. (fst r, map_grid (mResults (snd r))))
     (complete_run 5 1 False 0 1 5 exact_ops solo_schedule) =
   Some ([(0, 0), (0, 1), (0, 2), (0, 3), (0, 4)], [[0], [1], [2], [2], [3]])"
  by (simp add: run_simps render_loop.simps solo_schedule_def)

lemma run_idle:
  "map_option (\<lambda>r. (fst r, map_grid (mResults (snd r))))
     (complete_run 5 1 False 0 2 6 exact_ops idle_schedule) =
   Some ([], [[0], [0], [0], [0], [0]])"
  by (simp add: run_simps render_loop.simps idle_schedule_def)

lemma sizes_5_1: "sizes_ok 5 1 2 1" "sizes_ok 5 1 2 2" "sizes_ok 5 1 6 2" "sizes_ok 5 1 5 1"
  by (simp_all add: sizes_ok_def cBufferSize_def)

lemma sizes_main: "sizes_ok cWidthPixels cHeightPixels cBatchSize 24"
  by (simp add: sizes_ok_def cBufferSize_def cWidthPixels_def cHeightPixels_def cBatchSize_def)

lemma coords_index:
  fixes W H x y :: int
  assumes "0 \<le> x" "x < W" "0 \<le> y" "y < H"
  shows "0 \<le> y * W + x" "y * W + x < W * H" "(y * W + x) mod W = x" "(y * W + x) div W = y"
proof -
  show "0 \<le> y * W + x" using assms by simp
  have "y + 1 \<le> H" using assms by simp
  then have "(y + 1) * W \<le> H * W" using assms by (intro mult_right_mono) simp_all
  then show "y * W + x < W * H" using assms by (simp add: algebra_simps)
  show "(y * W + x) mod W = x" using assms by simp
  show "(y * W + x) div W = y" using assms by simp
qed

lemma grid_eqI:
  assumes m: "grid_shape W H m" and m': "grid_shape W H m'" and W: "1 \<le> W"
    and eq: "\<forall>j. 0 \<le> j \<and> j < W * H \<longrightarrow> cell_at W m j = cell_at W m' j"
  shows "m = m'"
proof (rule nth_equalityI)
  show "length m = length m'" using m m' by (simp add: grid_shape_def)
next
  fix x assume x: "x < length m"
  then have xw: "x < nat W" using m by (simp add: grid_shape_def)
  show "m ! x = m' ! x"
  proof (rule nth_equalityI)
    show "length (m ! x) = length (m' ! x)"
      using grid_shape_nth [OF m xw] grid_shape_nth [OF m' xw] by simp
  next
    fix y assume "y < length (m ! x)"
    then have yh: "y < nat H" using grid_shape_nth [OF m xw] by simp
    have c: "0 \<le> int x" "int x < W" "0 \<le> int y" "int y < H" using xw yh by simp_all
    note ci = coords_index [OF c]
    have "cell_at W m (int y * W + int x) = cell_at W m' (int y * W + int x)"
      using eq ci(1,2) by simp
    then have "m ! nat (int x) ! nat (int y) = m' ! nat (int x) ! nat (int y)"
      unfolding cell_at_def ci(3) ci(4) .
    then show "m ! x ! y = m' ! x ! y"
      by simp
  qed
qed

text \<open>
  Claim C1. After a complete run with at least one thread (\<open>startThreads\<close> has
  returned \<open>true\<close>, the threads have run under any schedule, \<open>waitToFinish\<close> has
  returned), the cell \<open>(x, y)\<close> of the grid holds \<open>pixel fp W H x y\<close>, the value
  \<open>render(scaleX(x), scaleY(y))\<close> computed sequentially, when its linear index
  \<open>y * W + x\<close> is below \<open>(W * H) div B * B\<close>. Every other cell holds its initial
  value 0: the loop returns at the first batch number that is not below
  \<open>totalArea / cBatchSize\<close>, so no thread processes an index from \<open>(W * H) div B * B\<close> on.
\<close>

theorem complete_run_grid:
  assumes "sizes_ok W H B n" and "1 \<le> n"
    and "complete_run W H saving0 iterator0 (int n) B fp sched = Some (tr, s)"
  shows "\<forall>x y. 0 \<le> x \<and> x < W \<and> 0 \<le> y \<and> y < H \<longrightarrow>
    map_grid (getMap s) ! nat x ! nat y =
      (if y * W + x < (W * H) div B * B then pixel fp W H x y else 0)"
proof (intro allI impI)
  fix x y assume c: "0 \<le> x \<and> x < W \<and> 0 \<le> y \<and> y < H"
  then have ci: "0 \<le> y * W + x" "y * W + x < W * H" "(y * W + x) mod W = x"
    "(y * W + x) div W = y"
    using coords_index [of x W y H] by simp_all
  have "cell_at W (map_grid (mResults s)) (y * W + x) =
      (if y * W + x < covered W H B then pixel_at fp W H (y * W + x) else 0)"
    using complete_run_cells(2) [OF assms] ci(1,2) by blast
  then have "map_grid (mResults s) ! nat x ! nat y =
      (if y * W + x < covered W H B then pixel fp W H x y else 0)"
    unfolding cell_at_def pixel_at_def ci(3) ci(4) .
  then show "map_grid (getMap s) ! nat x ! nat y =
      (if y * W + x < (W * H) div B * B then pixel fp W H x y else 0)"
    by (simp add: getMap_def covered_def batches_def)
qed

theorem complete_run_grid_witness:
  "sizes_ok 5 1 2 1 \<and>
   (\<exists>tr s. complete_run 5 1 False 0 (int 1) 2 exact_ops solo_schedule = Some (tr, s) \<and>
      map_grid (getMap s) ! nat 3 ! nat 0 = pixel exact_ops 5 1 3 0 \<and>
      map_grid (getMap s) ! nat 4 ! nat 0 = 0 \<and> pixel exact_ops 5 1 4 0 = 3) \<and>
   sizes_ok cWidthPixels cHeightPixels cBatchSize 24 \<and>
   (\<exists>sched tr s.
      complete_run cWidthPixels cHeightPixels False 0 (int 24) cBatchSize exact_ops sched =
        Some (tr, s) \<and>
      map_grid (getMap s) ! nat 110 ! nat 117 = 0 \<and>
      pixel exact_ops cWidthPixels cHeightPixels 110 117 = 3)"
proof -
  obtain tr s where run: "complete_run 5 1 False 0 (int 1) 2 exact_ops solo_schedule = Some (tr, s)"
    using run_solo by (cases "complete_run 5 1 False 0 1 2 exact_ops solo_schedule") auto
  have one: "(1::nat) \<le> 1" by simp
  note g = complete_run_grid [OF sizes_5_1(1) one run, rule_format]
  have "map_grid (getMap s) ! nat 3 ! nat 0 = pixel exact_ops 5 1 3 0"
    using g [of 3 0] by simp
  moreover have "map_grid (getMap s) ! nat 4 ! nat 0 = 0"
    using g [of 4 0] by simp
  ultimately have small: "\<exists>tr s.
      complete_run 5 1 False 0 (int 1) 2 exact_ops solo_schedule = Some (tr, s) \<and>
      map_grid (getMap s) ! nat 3 ! nat 0 = pixel exact_ops 5 1 3 0 \<and>
      map_grid (getMap s) ! nat 4 ! nat 0 = 0 \<and> pixel exact_ops 5 1 4 0 = 3"
    using run pixel_5_1(5) by blast
  obtain sched tr' s' where run':
    "complete_run cWidthPixels cHeightPixels False 0 (int 24) cBatchSize exact_ops sched =
       Some (tr', s')"
    using complete_run_exists [OF sizes_main] by blast
  have n: "(1::nat) \<le> 24" by simp
  have "map_grid (getMap s') ! nat 110 ! nat 117 = 0"
    using complete_run_grid [OF sizes_main n run', rule_format, of 110 117]
    by (simp add: cWidthPixels_def cHeightPixels_def cBatchSize_def)
  then have main: "\<exists>sched tr s.
      complete_run cWidthPixels cHeightPixels False 0 (int 24) cBatchSize exact_ops sched =
        Some (tr, s) \<and>
      map_grid (getMap s) ! nat 110 ! nat 117 = 0 \<and>
      pixel exact_ops cWidthPixels cHeightPixels 110 117 = 3"
    using run' pixel_main_tail by blast
  from small main sizes_5_1(1) sizes_main show ?thesis by blast
qed

lemma mset_set_distinct:
  assumes "mset xs = mset_set A" "finite A"
  shows "set xs = A \<and> distinct xs"
proof -
  have "set xs = set_mset (mset xs)" by simp
  also have "\<dots> = A" using assms by simp
  finally have s: "set xs = A" .
  have "\<forall>a. count (mset xs) a = (if a \<in> set xs then 1 else 0)"
    unfolding s using assms by (simp add: count_mset_set')
  then have "distinct xs" unfolding distinct_count_atmost_1 .
  with s show ?thesis by simp
qed

text \<open>
  Claim C2. In a complete run with at least one thread, under any schedule, the
  indices the threads process are exactly those of \<open>[0, (W * H) div B * B)\<close>, each
  once: no overlap, and no gap below \<open>(W * H) div B * B\<close>. The indices from there up
  to \<open>W * H\<close> are not processed; there are some whenever \<open>B\<close> does not divide \<open>W * H\<close>.
\<close>

theorem complete_run_processed:
  assumes "sizes_ok W H B n" and "1 \<le> n"
    and "complete_run W H saving0 iterator0 (int n) B fp sched = Some (tr, s)"
  shows "mset (map snd tr) = mset_set {0 ..< (W * H) div B * B} \<and>
         set (map snd tr) = {0 ..< (W * H) div B * B} \<and> distinct (map snd tr)"
proof -
  have m: "mset (map snd tr) = mset_set {0 ..< (W * H) div B * B}"
    using complete_run_cells(3) [OF assms] by (simp add: covered_def batches_def)
  then show ?thesis
    using mset_set_distinct [OF m] by simp
qed

theorem complete_run_processed_witness:
  "sizes_ok 5 1 2 2 \<and>
   (\<exists>tr s. complete_run 5 1 True 7 (int 2) 2 exact_ops duo_schedule = Some (tr, s) \<and>
      tr = [(0, 0), (0, 1), (1, 2), (1, 3)] \<and>
      set (map snd tr) = {0 ..< 4} \<and> distinct (map snd tr)) \<and>
   sizes_ok cWidthPixels cHeightPixels cBatchSize 24 \<and>
   (\<exists>sched tr s.
      complete_run cWidthPixels cHeightPixels False 0 (int 24) cBatchSize exact_ops sched =
        Some (tr, s) \<and>
      set (map snd tr) = {0 ..< 20000} \<and> distinct (map snd tr))"
proof -
  obtain tr s where run: "complete_run 5 1 True 7 (int 2) 2 exact_ops duo_schedule = Some (tr, s)"
    and tr: "tr = [(0, 0), (0, 1), (1, 2), (1, 3)]"
    using run_duo by (cases "complete_run 5 1 True 7 2 2 exact_ops duo_schedule") auto
  have two: "(1::nat) \<le> 2" by simp
  have "set (map snd tr) = {0 ..< 5 * 1 div 2 * 2} \<and> distinct (map snd tr)"
    using complete_run_processed [OF sizes_5_1(2) two run] by blast
  then have "set (map snd tr) = {0 ..< 4} \<and> distinct (map snd tr)" by simp
  with run tr have small: "\<exists>tr s.
      complete_run 5 1 True 7 (int 2) 2 exact_ops duo_schedule = Some (tr, s) \<and>
      tr = [(0, 0), (0, 1), (1, 2), (1, 3)] \<and>
      set (map snd tr) = {0 ..< 4} \<and> distinct (map snd tr)"
    by blast
  obtain sched tr' s' where run':
    "complete_run cWidthPixels cHeightPixels False 0 (int 24) cBatchSize exact_ops sched =
       Some (tr', s')"
    using complete_run_exists [OF sizes_main] by blast
  have n: "(1::nat) \<le> 24" by simp
  have "set (map snd tr') = {0 ..< 20000} \<and> distinct (map snd tr')"
    using complete_run_processed [OF sizes_main n run']
    by (simp add: cWidthPixels_def cHeightPixels_def cBatchSize_def)
  with run' have main: "\<exists>sched tr s.
      complete_run cWidthPixels cHeightPixels False 0 (int 24) cBatchSize exact_ops sched =
        Some (tr, s) \<and>
      set (map snd tr) = {0 ..< 20000} \<and> distinct (map snd tr)"
    by blast
  from small main sizes_5_1(2) sizes_main show ?thesis by blast
qed

text \<open>
  Claim C3. With a batch size above \<open>W * H\<close>, \<open>totalArea / cBatchSize\<close> is 0: in a
  complete run no thread processes any index, and every cell of the grid still holds
  its initial value 0.
\<close>

theorem complete_run_oversized_batch:
  assumes "sizes_ok W H B n" and "1 \<le> n" and "W * H < B"
    and "complete_run W H saving0 iterator0 (int n) B fp sched = Some (tr, s)"
  shows "tr = [] \<and>
    (\<forall>x y. 0 \<le> x \<and> x < W \<and> 0 \<le> y \<and> y < H \<longrightarrow> map_grid (getMap s) ! nat x ! nat y = 0)"
proof -
  note f = sizes_facts [OF assms(1)]
  have c: "covered W H B = 0"
    using f(4) assms(3) by (simp add: covered_def batches_def div_pos_pos_trivial)
  have "mset (map snd tr) = mset_set {0 ..< covered W H B}"
    by (rule complete_run_cells(3) [OF assms(1,2,4)])
  then have tr: "tr = []" by (simp add: c)
  have cells: "map_grid (getMap s) ! nat x ! nat y = 0"
    if xy: "0 \<le> x \<and> x < W \<and> 0 \<le> y \<and> y < H" for x y
  proof -
    have ci: "0 \<le> y * W + x" "y * W + x < W * H" "(y * W + x) mod W = x"
      "(y * W + x) div W = y"
      using coords_index [of x W y H] xy by simp_all
    have "cell_at W (map_grid (mResults s)) (y * W + x) =
      (if y * W + x < covered W H B then pixel_at fp W H (y * W + x) else 0)"
      using complete_run_cells(2) [OF assms(1,2,4)] ci(1,2) by blast
    then have "cell_at W (map_grid (mResults s)) (y * W + x) = 0"
      using c ci(1) by simp
    then have "map_grid (mResults s) ! nat x ! nat y = 0"
      unfolding cell_at_def ci(3) ci(4) .
    then show ?thesis by (simp add: getMap_def)
  qed
  from tr cells show ?thesis by blast
qed

theorem complete_run_oversized_batch_witness:
  "sizes_ok 5 1 6 2 \<and> (5::int) * 1 < 6 \<and>
   (\<exists>tr s. complete_run 5 1 False 0 (int 2) 6 exact_ops idle_schedule = Some (tr, s) \<and>
      tr = [] \<and> map_grid (getMap s) ! nat 1 ! nat 0 = 0 \<and> pixel exact_ops 5 1 1 0 = 1)"
proof -
  obtain tr s where run: "complete_run 5 1 False 0 (int 2) 6 exact_ops idle_schedule = Some (tr, s)"
    using run_idle by (cases "complete_run 5 1 False 0 2 6 exact_ops idle_schedule") auto
  have two: "(1::nat) \<le> 2" by simp
  have lt: "(5::int) * 1 < 6" by simp
  note r = complete_run_oversized_batch [OF sizes_5_1(3) two lt run]
  have "tr = []" using r by simp
  moreover have "map_grid (getMap s) ! nat 1 ! nat 0 = 0"
    using r [THEN conjunct2, rule_format, of 1 0] by simp
  ultimately show ?thesis using run sizes_5_1(3) pixel_5_1(2) by auto
qed

lemma complete_run_deterministic:
  assumes "sizes_ok W H B n" and "1 \<le> n"
    and "complete_run W H saving0 iterator0 (int n) B fp sched = Some (tr, s)"
    and "sizes_ok W H B n'" and "1 \<le> n'"
    and "complete_run W H saving0' iterator0' (int n') B fp sched' = Some (tr', s')"
  shows "map_grid (getMap s) = map_grid (getMap s')"
proof -
  note f = sizes_facts [OF assms(1)]
  note a = complete_run_cells [OF assms(1,2,3)]
  note b = complete_run_cells [OF assms(4,5,6)]
  have "map_grid (mResults s) = map_grid (mResults s')"
    using a(1) b(1) f(2)
  proof (rule grid_eqI)
    show "\<forall>j. 0 \<le> j \<and> j < W * H \<longrightarrow>
        cell_at W (map_grid (mResults s)) j = cell_at W (map_grid (mResults s')) j"
      using a(2) b(2) by simp
  qed
  then show ?thesis by (simp add: getMap_def)
qed

lemma main_run_tail:
  assumes "complete_run cWidthPixels cHeightPixels saving0 iterator0 24 cBatchSize fp sched =
    Some (tr, s)"
  shows "mset (map snd tr) = mset_set {0 ..< 20000}"
    and "\<forall>x. 110 \<le> x \<and> x < 170 \<longrightarrow> map_grid (getMap s) ! nat x ! 117 = 0"
proof -
  have n: "(1::nat) \<le> 24" by simp
  have run: "complete_run cWidthPixels cHeightPixels saving0 iterator0 (int 24) cBatchSize fp sched =
    Some (tr, s)" using assms by simp
  note r = complete_run_cells [OF sizes_main n run]
  have c: "covered cWidthPixels cHeightPixels cBatchSize = 20000"
    by (simp add: covered_def batches_def cWidthPixels_def cHeightPixels_def cBatchSize_def)
  show "mset (map snd tr) = mset_set {0 ..< 20000}"
    using r(3) by (simp add: c)
  show "\<forall>x. 110 \<le> x \<and> x < 170 \<longrightarrow> map_grid (getMap s) ! nat x ! 117 = 0"
  proof (intro allI impI)
    fix x :: int assume x: "110 \<le> x \<and> x < 170"
    have ci: "0 \<le> 117 * 170 + x" "117 * 170 + x < 170 * 118" "(117 * 170 + x) mod 170 = x"
      "(117 * 170 + x) div 170 = 117"
      using coords_index [of x 170 117 118] x by simp_all
    have "cell_at 170 (map_grid (mResults s)) (117 * 170 + x) =
      (if 117 * 170 + x < 20000 then pixel_at fp 170 118 (117 * 170 + x) else 0)"
      using r(2) ci(1,2) c by (simp add: cWidthPixels_def cHeightPixels_def)
    then have "cell_at 170 (map_grid (mResults s)) (117 * 170 + x) = 0"
      using x by simp
    then have "map_grid (mResults s) ! nat x ! nat 117 = 0"
      unfolding cell_at_def ci(3) ci(4) .
    then show "map_grid (getMap s) ! nat x ! 117 = 0" by (simp add: getMap_def)
  qed
qed

text \<open>
  Claim C5. The final grid does not depend on the number of threads nor on the
  schedule (\<open>complete_run_deterministic\<close>), but it depends on the batch size: on a
  grid of 5 by 1, a complete run with batch size 2 leaves the cell \<open>(4, 0)\<close> at 0, a
  complete run with batch size 5 sets it to 3; on the program's grid of 170 by 118
  with 24 threads, a complete run with batch size 20000 leaves the cell \<open>(110, 117)\<close>
  at 0, a complete run with batch size 20060 sets it to 3 (exact arithmetic).
\<close>

theorem batch_size_changes_grid:
  "map_option (\<lambda>r. map_grid (getMap (snd r)))
     (complete_run 5 1 False 0 1 2 exact_ops solo_schedule) = Some [[0], [1], [2], [2], [0]] \<and>
   map_option (\<lambda>r. map_grid (getMap (snd r)))
     (complete_run 5 1 False 0 1 5 exact_ops solo_schedule) = Some [[0], [1], [2], [2], [3]] \<and>
   (\<exists>sched tr s sched' tr' s'.
      complete_run cWidthPixels cHeightPixels False 0 24 cBatchSize exact_ops sched =
        Some (tr, s) \<and>
      complete_run cWidthPixels cHeightPixels False 0 24 20060 exact_ops sched' =
        Some (tr', s') \<and>
      map_grid (getMap s) ! 110 ! 117 = 0 \<and> map_grid (getMap s') ! 110 ! 117 = 3)"
proof -
  have a: "map_option (\<lambda>r. map_grid (getMap (snd r)))
     (complete_run 5 1 False 0 1 2 exact_ops solo_schedule) = Some [[0], [1], [2], [2], [0]]"
    using run_solo
    by (cases "complete_run 5 1 False 0 1 2 exact_ops solo_schedule") (auto simp: getMap_def)
  have b: "map_option (\<lambda>r. map_grid (getMap (snd r)))
     (complete_run 5 1 False 0 1 5 exact_ops solo_schedule) = Some [[0], [1], [2], [2], [3]]"
    using run_whole
    by (cases "complete_run 5 1 False 0 1 5 exact_ops solo_schedule") (auto simp: getMap_def)
  have n: "(1::nat) \<le> 24" by simp
  have ci: "0 \<le> 117 * 170 + (110::int)" "117 * 170 + (110::int) < 170 * 118"
    "(117 * 170 + (110::int)) mod 170 = 110" "(117 * 170 + (110::int)) div 170 = 117"
    by simp_all
  obtain sched tr s where run:
    "complete_run cWidthPixels cHeightPixels False 0 (int 24) cBatchSize exact_ops sched =
       Some (tr, s)"
    using complete_run_exists [OF sizes_main] by blast
  have "cell_at 170 (map_grid (mResults s)) (117 * 170 + 110) = 0"
    using complete_run_cells(2) [OF sizes_main n run] ci(1,2)
    by (simp add: cWidthPixels_def cHeightPixels_def cBatchSize_def covered_def batches_def)
  then have "map_grid (mResults s) ! nat 110 ! nat 117 = 0"
    unfolding cell_at_def ci(3) ci(4) .
  then have c: "map_grid (getMap s) ! 110 ! 117 = 0" by (simp add: getMap_def)
  have sz': "sizes_ok cWidthPixels cHeightPixels 20060 24"
    by (simp add: sizes_ok_def cBufferSize_def cWidthPixels_def cHeightPixels_def)
  obtain sched' tr' s' where run':
    "complete_run cWidthPixels cHeightPixels False 0 (int 24) 20060 exact_ops sched' =
       Some (tr', s')"
    using complete_run_exists [OF sz'] by blast
  have "cell_at 170 (map_grid (mResults s')) (117 * 170 + 110) =
      pixel_at exact_ops 170 118 (117 * 170 + 110)"
    using complete_run_cells(2) [OF sz' n run'] ci(1,2)
    by (simp add: cWidthPixels_def cHeightPixels_def covered_def batches_def)
  then have "map_grid (mResults s') ! nat 110 ! nat 117 = pixel exact_ops 170 118 110 117"
    unfolding cell_at_def pixel_at_def ci(3) ci(4) .
  then have d: "map_grid (getMap s') ! 110 ! 117 = 3"
    using pixel_main_tail by (simp add: getMap_def cWidthPixels_def cHeightPixels_def)
  have r: "complete_run cWidthPixels cHeightPixels False 0 24 cBatchSize exact_ops sched =
      Some (tr, s)"
    and r': "complete_run cWidthPixels cHeightPixels False 0 24 20060 exact_ops sched' =
      Some (tr', s')"
    using run run' by simp_all
  from r r' c d have "\<exists>sched tr s sched' tr' s'.
      complete_run cWidthPixels cHeightPixels False 0 24 cBatchSize exact_ops sched =
        Some (tr, s) \<and>
      complete_run cWidthPixels cHeightPixels False 0 24 20060 exact_ops sched' =
        Some (tr', s') \<and>
      map_grid (getMap s) ! 110 ! 117 = 0 \<and> map_grid (getMap s') ! 110 ! 117 = 3"
    by blast
  with a b show ?thesis by blast
qed

text \<open>
  Claim C6. The program as \<open>main\<close> runs it (170 by 118, 24 threads, batch size
  20000), \<open>mIsSavingResults\<close> initially \<open>false\<close>: after thread 0 has won the exchange
  and while it is inside \<open>dumpToMap\<close>, thread 1 fails its first exchange, which stores
  \<open>true\<close> in its \<open>dummy\<close>, and wins the second one, which expects \<open>true\<close>. Both
  threads are then inside the flush at once.
\<close>

theorem flush_not_exclusive:
  "(case run_threads cWidthPixels cHeightPixels False 0 24 cBatchSize fp race_schedule of
      None \<Rightarrow> False
    | Some (tr, s) \<Rightarrow>
        in_flush (mThreads s ! 0) \<and> in_flush (mThreads s ! 1) \<and>
        loc (mThreads s ! 0) = AtDump \<and> loc (mThreads s ! 1) = AtDump \<and>
        mIsSavingResults s)"
  by (simp add: run_threads_def new_LockfreeMandelbrot_def new_MandelbrotBitmap_def
      startThreads_def new_thread_def race_schedule_def step_def loop_step_def Let_def
      cWidthPixels_def cHeightPixels_def cBatchSize_def in_flush_def
      signed_modulo_int_def)

section \<open>The orchestrator\<close>

text \<open>
  The program as \<open>main\<close> starts it, after thread 0 has run to the first index of its
  batch: the object is started, it has 24 threads, and the counter has handed out
  batch 0.
\<close>

lemmas main_simps = run_threads_def new_LockfreeMandelbrot_def new_MandelbrotBitmap_def
  startThreads_def new_thread_def step_def loop_step_def process_def compute_push_def
  positionFromIndex_def u64_def s32_def u32_def push_def scaleX_def scaleY_def render_def
  exact_ops_def cMaxIterations_def cBufferSize_def Let_def
  signed_modulo_int_def signed_divide_int_def
  cWidthPixels_def cHeightPixels_def cBatchSize_def first_batch_schedule_def

lemma main_first_batch:
  "(case run_threads cWidthPixels cHeightPixels False 0 24 cBatchSize exact_ops
           (first_batch_schedule 0) of
      None \<Rightarrow> False
    | Some (tr, s) \<Rightarrow>
        tr = [(0, 0)] \<and> mIsStarted s \<and> mMandelbrotIterator s = 1 \<and> length (mThreads s) = 24)"
  by (simp add: main_simps render_loop.simps)

text \<open>
  A small object whose two threads have both returned from \<open>loop()\<close>: the first call of
  \<open>waitToFinish\<close> joins both.
\<close>

lemma idle_run_joined:
  "(case run_threads 5 1 False 0 2 6 exact_ops idle_schedule of
      None \<Rightarrow> False
    | Some (tr, s) \<Rightarrow> mIsStarted s \<and> map_option fst (waitToFinish s) = Some [0, 1])"
  by (simp add: run_simps render_loop.simps idle_schedule_def)

text \<open>
  Claim C9. When a call of \<open>waitToFinish\<close> has returned, a second call returns at
  once: it joins no thread and leaves the object as the first call left it.
\<close>

theorem waitToFinish_twice:
  assumes "waitToFinish s = Some (joined, s')"
  shows "waitToFinish s' = Some ([], s') \<and> mIsStarted s' = False"
proof (cases "mIsStarted s")
  case False
  with assms show ?thesis
    by (simp add: waitToFinish_def)
next
  case True
  with assms have "mIsStarted s' = False"
    by (auto simp: waitToFinish_def Let_def split: if_splits)
  then show ?thesis
    by (simp add: waitToFinish_def)
qed

theorem waitToFinish_twice_witness:
  "\<exists>tr s s'. run_threads 5 1 False 0 2 6 exact_ops idle_schedule = Some (tr, s) \<and>
     mIsStarted s \<and> waitToFinish s = Some ([0, 1], s') \<and>
     waitToFinish s' = Some ([], s') \<and> \<not> mIsStarted s'"
proof -
  obtain tr s where run: "run_threads 5 1 False 0 2 6 exact_ops idle_schedule = Some (tr, s)"
    and st: "mIsStarted s" and j: "map_option fst (waitToFinish s) = Some [0, 1]"
    using idle_run_joined
    by (cases "run_threads 5 1 False 0 2 6 exact_ops idle_schedule") auto
  from j obtain s' where w: "waitToFinish s = Some ([0, 1], s')"
    by (cases "waitToFinish s") auto
  from waitToFinish_twice [OF w] run st w show ?thesis by auto
qed

text \<open>
  Claim C4. On an object that is running, \<open>startThreads\<close> returns \<open>false\<close> and
  spawns no thread, but it has stored 0 in \<open>mMandelbrotIterator\<close>: the store stands
  before the test of \<open>mIsStarted\<close>. Every other field is unchanged.
\<close>

theorem startThreads_while_running:
  assumes "mIsStarted s"
  shows "startThreads numThreads s = Some (False, s\<lparr>mMandelbrotIterator := 0\<rparr>)"
  using assms by (simp add: startThreads_def)

theorem startThreads_while_running_witness:
  "\<exists>tr s. run_threads cWidthPixels cHeightPixels False 0 24 cBatchSize exact_ops
             (first_batch_schedule 0) = Some (tr, s) \<and>
     mIsStarted s \<and> mMandelbrotIterator s = 1 \<and>
     startThreads 24 s = Some (False, s\<lparr>mMandelbrotIterator := 0\<rparr>) \<and>
     mMandelbrotIterator (s\<lparr>mMandelbrotIterator := 0\<rparr>) \<noteq> mMandelbrotIterator s"
proof -
  obtain tr s where run: "run_threads cWidthPixels cHeightPixels False 0 24 cBatchSize exact_ops
             (first_batch_schedule 0) = Some (tr, s)"
    and st: "mIsStarted s" and c: "mMandelbrotIterator s = 1"
    using main_first_batch
    by (cases "run_threads cWidthPixels cHeightPixels False 0 24 cBatchSize exact_ops
             (first_batch_schedule 0)") auto
  have "startThreads 24 s = Some (False, s\<lparr>mMandelbrotIterator := 0\<rparr>)"
    using st by (rule startThreads_while_running)
  with run st c show ?thesis by auto
qed

text \<open>
  What the store costs: in the program as \<open>main\<close> starts it, thread 0 is given batch 0
  and processes the index 0; a second call of \<open>startThreads\<close> then fails and puts the
  counter back to 0, and thread 1 is given batch 0 as well and processes the index 0 a
  second time.
\<close>

lemma restart_repeats_batch:
  "(case run_threads cWidthPixels cHeightPixels False 0 24 cBatchSize exact_ops
           (first_batch_schedule 0) of
      None \<Rightarrow> False
    | Some (tr, s) \<Rightarrow>
        tr = [(0, 0)] \<and> mMandelbrotIterator s = 1 \<and>
        (case startThreads 24 s of
           None \<Rightarrow> False
         | Some (started, s') \<Rightarrow>
             \<not> started \<and> mMandelbrotIterator s' = 0 \<and> length (mThreads s') = 24 \<and>
             fst (exec cBatchSize exact_ops (first_batch_schedule 1) s') = [(1, 0)]))"
  by (simp add: main_simps render_loop.simps)
end
